theory Spec2Isabelle
  imports Complex_Main "HOL-Library.Word" "HOL-Library.Log_Nat"
begin

section \<open>The RTOS kernel of rtos.c\<close>

subsection \<open>Data model\<close>

type_synonym u32 = "32 word"

definition MAX_TASKS :: nat where
  "MAX_TASKS = 32"

datatype TaskState = TASK_READY | TASK_RUNNING | TASK_BLOCKED | TASK_SUSPENDED

text \<open>
  The task control block. The function pointer, its parameter and the stack pointer are
  left out: the scheduler never looks at them. The field \<open>id\<close> of the source is
  \<open>tcb_id\<close> here. A \<open>TCB*\<close> of the source is a handle: the index of the task in
  \<open>kernel.tasks\<close>, where \<open>rtos_create_task\<close> stores the only pointer to each block.
\<close>

record TCB =
  tcb_id :: nat
  priority :: u32
  deadline :: u32
  period :: u32
  state :: TaskState
  blocked_tick :: u32
  timeout :: u32
  name :: string
  run_count :: u32

text \<open>
  The priority queue: an array of \<open>MAX_TASKS\<close> task pointers and the number of slots in
  use. \<open>q_tasks\<close> is the whole array (its length is the declared storage), \<open>q_size\<close>
  the field \<open>size\<close>.
\<close>

record 'p PriorityQueue =
  q_tasks :: "'p list"
  q_size :: nat

text \<open>
  The kernel singleton. \<open>tasks\<close> holds the slots \<open>0 ..< num_tasks\<close> of
  \<open>kernel.tasks\<close>; the slots from \<open>num_tasks\<close> on are \<open>NULL\<close> (\<open>rtos_init\<close> clears
  them and only \<open>rtos_create_task\<close> writes one, at \<open>num_tasks\<close>). \<open>ready_queue\<close> is
  the function-static queue of \<open>schedule_next_task\<close>, which outlives each call.
\<close>

record RTOS_Kernel =
  tasks :: "TCB list"
  current_task :: nat
  tick_count :: u32
  scheduler_running :: bool
  total_switches :: u32
  ready_queue :: "nat PriorityQueue"

definition num_tasks :: "RTOS_Kernel \<Rightarrow> nat" where
  "num_tasks k = length (tasks k)"

text \<open>
  An access outside an array's declared storage is undefined behaviour in C. The model
  makes it a value: the index that was out of range.
\<close>

datatype fault = OutOfBounds nat

definition slot_read :: "'a list \<Rightarrow> nat \<Rightarrow> fault + 'a" where
  "slot_read arr i = (if i < length arr then Inr (arr ! i) else Inl (OutOfBounds i))"

definition slot_write :: "'a list \<Rightarrow> nat \<Rightarrow> 'a \<Rightarrow> fault + 'a list" where
  "slot_write arr i v = (if i < length arr then Inr (arr[i := v]) else Inl (OutOfBounds i))"

subsection \<open>The priority queue\<close>

definition priority_queue_init :: "'p PriorityQueue \<Rightarrow> 'p PriorityQueue" where
  "priority_queue_init queue = queue\<lparr>q_size := 0\<rparr>"

text \<open>
  The sift-up loop of \<open>priority_queue_insert\<close>: from slot \<open>i\<close>, move parents down
  until one has both a priority at least the task's and a deadline at most the task's.
  \<open>deref\<close> reads the block a pointer refers to. The result is the array and the final
  \<open>i\<close>.
\<close>

function insert_loop ::
  "('p \<Rightarrow> TCB) \<Rightarrow> 'p list \<Rightarrow> nat \<Rightarrow> 'p \<Rightarrow> fault + ('p list \<times> nat)" where
  "insert_loop deref arr i task =
     (if 0 < i then
        (case slot_read arr ((i - 1) div 2) of
           Inl e \<Rightarrow> Inl e
         | Inr p \<Rightarrow>
             if priority (deref task) \<le> priority (deref p) \<and>
                deadline (deref p) \<le> deadline (deref task)
             then Inr (arr, i)
             else (case slot_write arr i p of
                     Inl e \<Rightarrow> Inl e
                   | Inr arr' \<Rightarrow> insert_loop deref arr' ((i - 1) div 2) task))
      else Inr (arr, i))"
  by pat_completeness auto
termination
  by (relation "measure (\<lambda>(deref, arr, i, task). i)") auto

definition priority_queue_insert ::
  "('p \<Rightarrow> TCB) \<Rightarrow> 'p PriorityQueue \<Rightarrow> 'p \<Rightarrow> fault + 'p PriorityQueue" where
  "priority_queue_insert deref queue task =
     (case insert_loop deref (q_tasks queue) (q_size queue) task of
        Inl e \<Rightarrow> Inl e
      | Inr (arr, i) \<Rightarrow>
          (case slot_write arr i task of
             Inl e \<Rightarrow> Inl e
           | Inr arr' \<Rightarrow> Inr (queue\<lparr>q_tasks := arr', q_size := q_size queue + 1\<rparr>)))"

text \<open>
  The sift-down loop of \<open>priority_queue_extract\<close>; \<open>sz\<close> is the size after the
  decrement, \<open>last_task\<close> (the source's \<open>last\<close>) the pointer taken from the
  last slot. The right child is read only when \<open>right < sz\<close>, as the short-circuit
  \<open>&&\<close> of the source does.
\<close>

function extract_loop ::
  "('p \<Rightarrow> TCB) \<Rightarrow> 'p list \<Rightarrow> nat \<Rightarrow> 'p \<Rightarrow> nat \<Rightarrow> fault + ('p list \<times> nat)" where
  "extract_loop deref arr sz last_task i =
     (if i * 2 + 1 < sz then
        (case slot_read arr (i * 2 + 1) of
           Inl e \<Rightarrow> Inl e
         | Inr l \<Rightarrow>
            (case (if i * 2 + 2 < sz then slot_read arr (i * 2 + 2) else Inr l) of
               Inl e \<Rightarrow> Inl e
             | Inr r \<Rightarrow>
                 (let highest_priority =
                        (if i * 2 + 2 < sz \<and>
                            (priority (deref l) < priority (deref r) \<or>
                             (priority (deref r) = priority (deref l) \<and>
                              deadline (deref r) < deadline (deref l)))
                         then i * 2 + 2 else i * 2 + 1)
                  in (case slot_read arr highest_priority of
                        Inl e \<Rightarrow> Inl e
                      | Inr h \<Rightarrow>
                          if priority (deref h) < priority (deref last_task) \<or>
                             (priority (deref last_task) = priority (deref h) \<and>
                              deadline (deref last_task) \<le> deadline (deref h))
                          then Inr (arr, i)
                          else (case slot_write arr i h of
                                  Inl e \<Rightarrow> Inl e
                                | Inr arr' \<Rightarrow>
                                    extract_loop deref arr' sz last_task highest_priority)))))
      else Inr (arr, i))"
  by pat_completeness auto
termination
  by (relation "measure (\<lambda>(deref, arr, sz, last_task, i). sz - i)") (auto split: if_splits)

definition priority_queue_extract ::
  "('p \<Rightarrow> TCB) \<Rightarrow> 'p PriorityQueue \<Rightarrow> fault + ('p PriorityQueue \<times> 'p option)" where
  "priority_queue_extract deref queue =
     (if q_size queue = 0 then Inr (queue, None)
      else
        (case slot_read (q_tasks queue) 0 of
           Inl e \<Rightarrow> Inl e
         | Inr result \<Rightarrow>
            (case slot_read (q_tasks queue) (q_size queue - 1) of
               Inl e \<Rightarrow> Inl e
             | Inr last_task \<Rightarrow>
                (case extract_loop deref (q_tasks queue) (q_size queue - 1) last_task 0 of
                   Inl e \<Rightarrow> Inl e
                 | Inr (arr, i) \<Rightarrow>
                     if 0 < q_size queue - 1 then
                       (case slot_write arr i last_task of
                          Inl e \<Rightarrow> Inl e
                        | Inr arr' \<Rightarrow>
                            Inr (queue\<lparr>q_tasks := arr', q_size := q_size queue - 1\<rparr>,
                                 Some result))
                     else Inr (queue\<lparr>q_tasks := arr, q_size := q_size queue - 1\<rparr>,
                               Some result)))))"

subsection \<open>The kernel\<close>

text \<open>
  \<open>rtos_init\<close>. The static queue starts zero-filled; its slots at or above \<open>q_size\<close>
  are never read, every read of the queue being below the size.
\<close>

definition rtos_init :: "RTOS_Kernel" where
  "rtos_init =
     \<lparr>tasks = [], current_task = 0, tick_count = 0, scheduler_running = False,
      total_switches = 0,
      ready_queue = \<lparr>q_tasks = replicate MAX_TASKS 0, q_size = 0\<rparr>\<rparr>"

text \<open>
  \<open>rtos_create_task\<close>. \<open>tcb_ok\<close> and \<open>stack_ok\<close> say whether the two \<open>malloc\<close>
  calls succeed. The result is the kernel and the returned value (the new id, or \<open>-1\<close>).
\<close>

definition rtos_create_task ::
  "bool \<Rightarrow> bool \<Rightarrow> string \<Rightarrow> u32 \<Rightarrow> u32 \<Rightarrow> u32 \<Rightarrow> RTOS_Kernel \<Rightarrow> RTOS_Kernel \<times> int" where
  "rtos_create_task tcb_ok stack_ok nm prio dl per k =
     (if MAX_TASKS \<le> num_tasks k then (k, - 1)
      else if \<not> tcb_ok then (k, - 1)
      else if \<not> stack_ok then (k, - 1)
      else
        (k\<lparr>tasks := tasks k @
             [\<lparr>tcb_id = num_tasks k, priority = prio, deadline = dl, period = per,
               state = TASK_READY, blocked_tick = 0, timeout = 0, name = take 31 nm,
               run_count = 0\<rparr>]\<rparr>,
         int (num_tasks k)))"

text \<open>
  The pointer in slot \<open>i\<close> of \<open>kernel.tasks\<close>: the handle \<open>i\<close> below \<open>num_tasks\<close>,
  \<open>NULL\<close> from there to the end of the array.
\<close>

definition kernel_task :: "RTOS_Kernel \<Rightarrow> nat \<Rightarrow> fault + nat option" where
  "kernel_task k i =
     (if i < MAX_TASKS then Inr (if i < num_tasks k then Some i else None)
      else Inl (OutOfBounds i))"

text \<open>The first loop of \<open>schedule_next_task\<close>, over the task indices in order.\<close>

fun insert_ready :: "TCB list \<Rightarrow> nat list \<Rightarrow> nat PriorityQueue \<Rightarrow> fault + nat PriorityQueue" where
  "insert_ready tbl [] queue = Inr queue"
| "insert_ready tbl (i # rest) queue =
     (if state (tbl ! i) = TASK_READY then
        (case priority_queue_insert (\<lambda>h. tbl ! h) queue i of
           Inl e \<Rightarrow> Inl e
         | Inr queue' \<Rightarrow> insert_ready tbl rest queue')
      else insert_ready tbl rest queue)"

definition schedule_next_task :: "RTOS_Kernel \<Rightarrow> fault + (RTOS_Kernel \<times> nat option)" where
  "schedule_next_task k =
     (case insert_ready (tasks k) [0 ..< num_tasks k] (priority_queue_init (ready_queue k)) of
        Inl e \<Rightarrow> Inl e
      | Inr queue \<Rightarrow>
          (case priority_queue_extract (\<lambda>h. tasks k ! h) queue of
             Inl e \<Rightarrow> Inl e
           | Inr (queue', None) \<Rightarrow> Inr (k\<lparr>ready_queue := queue'\<rparr>, None)
           | Inr (queue', Some next_task) \<Rightarrow>
               Inr (k\<lparr>tasks := (tasks k)[next_task :=
                                   (tasks k ! next_task)\<lparr>state := TASK_RUNNING\<rparr>],
                      current_task := tcb_id (tasks k ! next_task),
                      ready_queue := queue'\<rparr>,
                    Some next_task)))"

text \<open>
  \<open>simulate_task_execution\<close>. The task body is opaque to the scheduler and is taken to
  return without touching the kernel. A body that calls \<open>rtos_block_task\<close>, as the
  bodies of the demonstration do, is the same as the driver calling it next: the call of
  the body is the last statement of every path of the tick handler and of
  \<open>rtos_block_task\<close>.
\<close>

definition simulate_task_execution :: "nat \<Rightarrow> RTOS_Kernel \<Rightarrow> RTOS_Kernel" where
  "simulate_task_execution task k =
     k\<lparr>tasks := (tasks k)[task := (tasks k ! task)\<lparr>run_count := run_count (tasks k ! task) + 1\<rparr>]\<rparr>"

text \<open>The loop ``check blocked tasks'' of the tick handler, one task at a time.\<close>

definition unblock_task :: "u32 \<Rightarrow> TCB \<Rightarrow> TCB" where
  "unblock_task now task =
     (if state task = TASK_BLOCKED \<and> timeout task \<le> now - blocked_tick task
      then task\<lparr>state := TASK_READY\<rparr> else task)"

definition check_blocked_tasks :: "RTOS_Kernel \<Rightarrow> RTOS_Kernel" where
  "check_blocked_tasks k = k\<lparr>tasks := map (unblock_task (tick_count k)) (tasks k)\<rparr>"

text \<open>The loop that looks for a ready task of higher priority than the current one.\<close>

definition should_preempt :: "RTOS_Kernel \<Rightarrow> nat \<Rightarrow> bool" where
  "should_preempt k current =
     list_ex (\<lambda>task. state task = TASK_READY \<and>
                     priority (tasks k ! current) < priority task) (tasks k)"

text \<open>What the tick handler and \<open>rtos_block_task\<close> do with the scheduler's answer.\<close>

definition switch_to :: "fault + (RTOS_Kernel \<times> nat option) \<Rightarrow> fault + RTOS_Kernel" where
  "switch_to r =
     (case r of
        Inl e \<Rightarrow> Inl e
      | Inr (k, None) \<Rightarrow> Inr k
      | Inr (k, Some next_task) \<Rightarrow>
          Inr (simulate_task_execution next_task
                 (k\<lparr>total_switches := total_switches k + 1\<rparr>)))"

text \<open>
  The part of the tick handler after the unblock loop: the preemption check and the
  dispatch.
\<close>

definition tick_dispatch :: "RTOS_Kernel \<Rightarrow> fault + RTOS_Kernel" where
  "tick_dispatch k =
     (case kernel_task k (current_task k) of
        Inl e \<Rightarrow> Inl e
      | Inr None \<Rightarrow> switch_to (schedule_next_task k)
      | Inr (Some current) \<Rightarrow>
          if state (tasks k ! current) = TASK_RUNNING then
            (if should_preempt k current then
               switch_to (schedule_next_task
                 (k\<lparr>tasks := (tasks k)[current :=
                                 (tasks k ! current)\<lparr>state := TASK_READY\<rparr>]\<rparr>))
             else Inr (simulate_task_execution current k))
          else switch_to (schedule_next_task k))"

definition rtos_tick_handler :: "RTOS_Kernel \<Rightarrow> fault + RTOS_Kernel" where
  "rtos_tick_handler k =
     tick_dispatch (check_blocked_tasks (k\<lparr>tick_count := tick_count k + 1\<rparr>))"

definition rtos_block_task :: "u32 \<Rightarrow> RTOS_Kernel \<Rightarrow> fault + RTOS_Kernel" where
  "rtos_block_task tmo k =
     (case kernel_task k (current_task k) of
        Inl e \<Rightarrow> Inl e
      | Inr None \<Rightarrow> Inr k
      | Inr (Some current) \<Rightarrow>
          switch_to (schedule_next_task
            (k\<lparr>tasks := (tasks k)[current :=
                            (tasks k ! current)\<lparr>state := TASK_BLOCKED,
                                                 blocked_tick := tick_count k,
                                                 timeout := tmo\<rparr>]\<rparr>)))"


subsection \<open>Drivers and observations\<close>

text \<open>The calls a driver can make, and a sequence of them run from a kernel.\<close>

datatype kernel_call =
  Create_task bool bool string u32 u32 u32
| Tick
| Block_current u32

fun kernel_step :: "kernel_call \<Rightarrow> RTOS_Kernel \<Rightarrow> fault + RTOS_Kernel" where
  "kernel_step (Create_task tcb_ok stack_ok nm prio dl per) k =
     Inr (fst (rtos_create_task tcb_ok stack_ok nm prio dl per k))"
| "kernel_step Tick k = rtos_tick_handler k"
| "kernel_step (Block_current tmo) k = rtos_block_task tmo k"

fun run_calls :: "kernel_call list \<Rightarrow> RTOS_Kernel \<Rightarrow> fault + RTOS_Kernel" where
  "run_calls [] k = Inr k"
| "run_calls (c # cs) k =
     (case kernel_step c k of Inl e \<Rightarrow> Inl e | Inr k' \<Rightarrow> run_calls cs k')"

fun ticks :: "nat \<Rightarrow> RTOS_Kernel \<Rightarrow> fault + RTOS_Kernel" where
  "ticks 0 k = Inr k"
| "ticks (Suc n) k =
     (case ticks n k of Inl e \<Rightarrow> Inl e | Inr k' \<Rightarrow> rtos_tick_handler k')"

text \<open>The handles of the tasks in state \<open>TASK_RUNNING\<close>, and the first of them.\<close>

definition running_tasks :: "RTOS_Kernel \<Rightarrow> nat list" where
  "running_tasks k = filter (\<lambda>i. state (tasks k ! i) = TASK_RUNNING) [0 ..< num_tasks k]"


text \<open>
  The shape of the kernel that \<open>rtos_init\<close> sets up and the calls keep: the task table
  and the queue fit their arrays, every task's id is its index, and a running task is
  the current one.
\<close>

definition kernel_inv :: "RTOS_Kernel \<Rightarrow> bool" where
  "kernel_inv k \<longleftrightarrow>
     num_tasks k \<le> MAX_TASKS \<and>
     length (q_tasks (ready_queue k)) = MAX_TASKS \<and>
     map tcb_id (tasks k) = [0 ..< num_tasks k] \<and>
     current_task k < MAX_TASKS \<and>
     list_all (\<lambda>task. state task = TASK_RUNNING \<longrightarrow> tcb_id task = current_task k) (tasks k)"

text \<open>The kernel a run ends in; a run that stops at a fault has none, and gets the initial one.\<close>

definition kernel_of :: "fault + RTOS_Kernel \<Rightarrow> RTOS_Kernel" where
  "kernel_of r = (case r of Inl e \<Rightarrow> rtos_init | Inr k \<Rightarrow> k)"

text \<open>
  The kernel after the three \<open>rtos_create_task\<close> calls of \<open>main\<close>, with every
  allocation succeeding.
\<close>

definition main_kernel :: "RTOS_Kernel" where
  "main_kernel =
     fst (rtos_create_task True True ''MediumPriorityTask'' 2 1500 1500
       (fst (rtos_create_task True True ''HighPriorityTask'' 3 2000 2000
         (fst (rtos_create_task True True ''LowPriorityTask'' 1 1000 1000 rtos_init)))))"

text \<open>
  A queue on its own, holding the blocks themselves: insert a list of tasks into an
  empty queue of \<open>MAX_TASKS\<close> slots, then extract a number of times.
\<close>

fun insert_all :: "TCB list \<Rightarrow> TCB PriorityQueue \<Rightarrow> fault + TCB PriorityQueue" where
  "insert_all [] queue = Inr queue"
| "insert_all (task # rest) queue =
     (case priority_queue_insert (\<lambda>t. t) queue task of
        Inl e \<Rightarrow> Inl e
      | Inr queue' \<Rightarrow> insert_all rest queue')"

fun extract_all :: "nat \<Rightarrow> TCB PriorityQueue \<Rightarrow> fault + TCB list" where
  "extract_all 0 queue = Inr []"
| "extract_all (Suc n) queue =
     (case priority_queue_extract (\<lambda>t. t) queue of
        Inl e \<Rightarrow> Inl e
      | Inr (queue', None) \<Rightarrow> Inr []
      | Inr (queue', Some task) \<Rightarrow>
          (case extract_all n queue' of Inl e \<Rightarrow> Inl e | Inr out \<Rightarrow> Inr (task # out)))"

definition task_of :: "u32 \<Rightarrow> u32 \<Rightarrow> TCB" where
  "task_of prio dl =
     \<lparr>tcb_id = 0, priority = prio, deadline = dl, period = dl, state = TASK_READY,
      blocked_tick = 0, timeout = 0, name = [], run_count = 0\<rparr>"

definition empty_queue :: "TCB PriorityQueue" where
  "empty_queue =
     priority_queue_init \<lparr>q_tasks = replicate MAX_TASKS (task_of 0 0), q_size = 0\<rparr>"

text \<open>
  Intermediate kernels of the tick handler and of \<open>rtos_block_task\<close>: the current task
  put back to ready, the current task blocked, the kernel with a scheduled task
  installed, and the kernel after the switch to it has been counted and its body run.
\<close>

definition demote :: "RTOS_Kernel \<Rightarrow> RTOS_Kernel" where
  "demote k = k\<lparr>tasks := (tasks k)[current_task k :=
                   (tasks k ! current_task k)\<lparr>state := TASK_READY\<rparr>]\<rparr>"

definition block :: "u32 \<Rightarrow> RTOS_Kernel \<Rightarrow> RTOS_Kernel" where
  "block tmo k = k\<lparr>tasks := (tasks k)[current_task k :=
                   (tasks k ! current_task k)\<lparr>state := TASK_BLOCKED,
                      blocked_tick := tick_count k, timeout := tmo\<rparr>]\<rparr>"

definition install :: "RTOS_Kernel \<Rightarrow> nat \<Rightarrow> nat PriorityQueue \<Rightarrow> RTOS_Kernel" where
  "install k h q =
     k\<lparr>tasks := (tasks k)[h := (tasks k ! h)\<lparr>state := TASK_RUNNING\<rparr>],
       current_task := tcb_id (tasks k ! h), ready_queue := q\<rparr>"

definition dispatched :: "RTOS_Kernel \<Rightarrow> nat \<Rightarrow> nat PriorityQueue \<Rightarrow> RTOS_Kernel" where
  "dispatched k h q =
     simulate_task_execution h ((install k h q)\<lparr>total_switches := total_switches k + 1\<rparr>)"

text \<open>The pointers a queue holds: those in its slots below the size.\<close>

definition live :: "'p PriorityQueue \<Rightarrow> 'p set" where
  "live queue = set (take (q_size queue) (q_tasks queue))"

section \<open>The rate-monotonic selection of realtime_scheduling_demo.c\<close>


definition MAX_RT_TASKS :: nat where
  "MAX_RT_TASKS = 10"

text \<open>
  The task and scheduler structures. The fields of type \<open>double\<close> have the type
  parameter \<open>'d\<close>: their arithmetic is a parameter of \<open>add_rt_task\<close>. The name of a
  task is left out. \<open>rt_tasks\<close> holds the slots \<open>0 ..< task_count\<close> of the array.
\<close>

record 'd rt_task_t =
  rt_id :: int
  rt_period :: int
  rt_execution_time :: int
  rt_deadline :: int
  rt_priority :: int
  rt_next_release :: int
  rt_next_deadline :: int
  rt_remaining_execution :: int
  rt_instances_released :: int
  rt_instances_completed :: int
  rt_instances_missed :: int
  rt_utilization :: 'd
  rt_active :: bool
  rt_deadline_missed :: bool

record 'd rt_scheduler_t =
  rt_tasks :: "'d rt_task_t list"
  rt_current_time :: int
  rt_hyperperiod :: int
  rt_total_utilization :: 'd
  rt_total_deadline_misses :: int
  rt_total_preemptions :: int
  rt_schedulable :: bool

definition task_count :: "'d rt_scheduler_t \<Rightarrow> nat" where
  "task_count scheduler = length (rt_tasks scheduler)"

text \<open>
  \<open>add_rt_task\<close>; \<open>ddiv\<close> is the division \<open>(double)exec_time / period\<close> and \<open>dadd\<close>
  the addition of doubles.
\<close>

definition add_rt_task ::
  "(int \<Rightarrow> int \<Rightarrow> 'd) \<Rightarrow> ('d \<Rightarrow> 'd \<Rightarrow> 'd) \<Rightarrow> 'd rt_scheduler_t \<Rightarrow> int \<Rightarrow> int \<Rightarrow> int \<Rightarrow> int \<Rightarrow>
   'd rt_scheduler_t" where
  "add_rt_task ddiv dadd scheduler ident per exec_time dl =
     (if task_count scheduler < MAX_RT_TASKS then
        scheduler\<lparr>rt_tasks := rt_tasks scheduler @
            [\<lparr>rt_id = ident, rt_period = per, rt_execution_time = exec_time,
              rt_deadline = (if dl = 0 then per else dl), rt_priority = per,
              rt_next_release = 0, rt_next_deadline = (if dl = 0 then per else dl),
              rt_remaining_execution = 0, rt_instances_released = 0,
              rt_instances_completed = 0, rt_instances_missed = 0,
              rt_utilization = ddiv exec_time per, rt_active = False,
              rt_deadline_missed = False\<rparr>],
          rt_total_utilization :=
            dadd (rt_total_utilization scheduler) (ddiv exec_time per)\<rparr>
      else scheduler)"




subsection \<open>The schedulability analysis\<close>

text \<open>
  \<open>initialize_rt_scheduler\<close>: every field cleared; \<open>dzero\<close> is the double \<open>0.0\<close>.
\<close>

definition initialize_rt_scheduler :: "'d \<Rightarrow> 'd rt_scheduler_t" where
  "initialize_rt_scheduler dzero =
     \<lparr>rt_tasks = [], rt_current_time = 0, rt_hyperperiod = 0, rt_total_utilization = dzero,
      rt_total_deadline_misses = 0, rt_total_preemptions = 0, rt_schedulable = False\<rparr>"

text \<open>
  A sequence of \<open>add_rt_task\<close> calls, as \<open>generate_rt_workload\<close> makes them; a call is
  given by its id, period, execution time and deadline.
\<close>

type_synonym rt_call = "int \<times> int \<times> int \<times> int"

fun add_rt_tasks ::
  "(int \<Rightarrow> int \<Rightarrow> 'd) \<Rightarrow> ('d \<Rightarrow> 'd \<Rightarrow> 'd) \<Rightarrow> rt_call list \<Rightarrow> 'd rt_scheduler_t \<Rightarrow>
   'd rt_scheduler_t" where
  "add_rt_tasks ddiv dadd [] scheduler = scheduler"
| "add_rt_tasks ddiv dadd ((ident, per, exec_time, dl) # rest) scheduler =
     add_rt_tasks ddiv dadd rest (add_rt_task ddiv dadd scheduler ident per exec_time dl)"

definition generate_rt_workload ::
  "(int \<Rightarrow> int \<Rightarrow> 'd) \<Rightarrow> ('d \<Rightarrow> 'd \<Rightarrow> 'd) \<Rightarrow> 'd rt_scheduler_t \<Rightarrow> 'd rt_scheduler_t" where
  "generate_rt_workload ddiv dadd scheduler =
     add_rt_tasks ddiv dadd
       [(1, 10, 3, 10), (2, 15, 2, 15), (3, 25, 4, 25), (4, 30, 5, 30), (5, 50, 3, 50)]
       scheduler"

text \<open>
  \<open>check_rms_schedulability\<close> and \<open>check_edf_schedulability\<close>. The operations on
  doubles are parameters: \<open>dofint\<close> converts an \<open>int\<close> (and gives the literals \<open>1.0\<close>
  and \<open>2.0\<close>), \<open>dmul\<close>, \<open>dsub\<close> and \<open>ddivd\<close> are \<open>*\<close>, \<open>-\<close> and \<open>/\<close>, \<open>dpow\<close> is
  \<open>pow\<close> and \<open>dle\<close> is \<open><=\<close>. The result is the scheduler the function leaves and the
  value it returns; the printing is left out.
\<close>

definition utilization_bound ::
  "(int \<Rightarrow> 'd) \<Rightarrow> ('d \<Rightarrow> 'd \<Rightarrow> 'd) \<Rightarrow> ('d \<Rightarrow> 'd \<Rightarrow> 'd) \<Rightarrow> ('d \<Rightarrow> 'd \<Rightarrow> 'd) \<Rightarrow>
   ('d \<Rightarrow> 'd \<Rightarrow> 'd) \<Rightarrow> int \<Rightarrow> 'd" where
  "utilization_bound dofint dmul dsub ddivd dpow n =
     dmul (dofint n) (dsub (dpow (dofint 2) (ddivd (dofint 1) (dofint n))) (dofint 1))"

definition check_rms_schedulability ::
  "(int \<Rightarrow> 'd) \<Rightarrow> ('d \<Rightarrow> 'd \<Rightarrow> 'd) \<Rightarrow> ('d \<Rightarrow> 'd \<Rightarrow> 'd) \<Rightarrow> ('d \<Rightarrow> 'd \<Rightarrow> 'd) \<Rightarrow>
   ('d \<Rightarrow> 'd \<Rightarrow> 'd) \<Rightarrow> ('d \<Rightarrow> 'd \<Rightarrow> bool) \<Rightarrow> 'd rt_scheduler_t \<Rightarrow> 'd rt_scheduler_t \<times> bool" where
  "check_rms_schedulability dofint dmul dsub ddivd dpow dle scheduler =
     (scheduler,
      dle (rt_total_utilization scheduler)
          (utilization_bound dofint dmul dsub ddivd dpow (int (task_count scheduler))))"

definition check_edf_schedulability ::
  "(int \<Rightarrow> 'd) \<Rightarrow> ('d \<Rightarrow> 'd \<Rightarrow> bool) \<Rightarrow> 'd rt_scheduler_t \<Rightarrow> 'd rt_scheduler_t \<times> bool" where
  "check_edf_schedulability dofint dle scheduler =
     (scheduler, dle (rt_total_utilization scheduler) (dofint 1))"

text \<open>
  The utilization in the spec's words: the sum of execution time over period, exactly.
\<close>

definition exact_utilization :: "rt_call list \<Rightarrow> rat" where
  "exact_utilization calls =
     sum_list (map (\<lambda>(ident, per, exec_time, dl). of_int exec_time / of_int per) calls)"

text \<open>
  The doubles of the platform, as the rationals they are: IEEE 754 binary64 with
  rounding to nearest, ties to even. \<open>binary64\<close> rounds a rational to 53 significant
  bits; it is the double nearest to it wherever the result is in the normal range, as
  every quotient of two nonzero \<open>int\<close>s and every sum of a few of them is. A division
  by a period of 0, which gives an infinity or a NaN, is outside this carrier.
\<close>

definition pow2 :: "int \<Rightarrow> rat" where
  "pow2 e = (if 0 \<le> e then 2 ^ nat e else 1 / 2 ^ nat (- e))"

definition floor_log2 :: "rat \<Rightarrow> int" where
  "floor_log2 x =
     (let d = bitlen (fst (quotient_of x)) - bitlen (snd (quotient_of x))
      in if pow2 d \<le> x then d else d - 1)"

definition round_half_even :: "rat \<Rightarrow> int" where
  "round_half_even x =
     (let f = \<lfloor>x\<rfloor>; r = x - of_int f
      in if r < 1 / 2 then f else if 1 / 2 < r then f + 1 else if even f then f else f + 1)"

definition binary64 :: "rat \<Rightarrow> rat" where
  "binary64 x =
     (if x = 0 then 0
      else (let e = floor_log2 \<bar>x\<bar> - 52
            in sgn x * of_int (round_half_even (\<bar>x\<bar> / pow2 e)) * pow2 e))"

definition double_div :: "int \<Rightarrow> int \<Rightarrow> rat" where
  "double_div a b = binary64 (binary64 (of_int a) / binary64 (of_int b))"

definition double_add :: "rat \<Rightarrow> rat \<Rightarrow> rat" where
  "double_add x y = binary64 (x + y)"



declare insert_loop.simps [simp del]
declare extract_loop.simps [simp del]

section \<open>Properties of the rate-monotonic selection\<close>






section \<open>Properties of the schedulability analysis\<close>

lemma add_rt_tasks_utilization:
  "task_count s \<le> MAX_RT_TASKS \<Longrightarrow>
   rt_total_utilization (add_rt_tasks ddiv dadd calls s) =
     foldl dadd (rt_total_utilization s)
       (map (\<lambda>(ident, per, exec_time, dl). ddiv exec_time per)
          (take (MAX_RT_TASKS - task_count s) calls)) \<and>
   task_count (add_rt_tasks ddiv dadd calls s) = min (task_count s + length calls) MAX_RT_TASKS"
proof (induction calls arbitrary: s)
  case Nil
  then show ?case by simp
next
  case (Cons c rest)
  obtain ident per exec_time dl where c: "c = (ident, per, exec_time, dl)"
    by (cases c) auto
  let ?s' = "add_rt_task ddiv dadd s ident per exec_time dl"
  show ?case
  proof (cases "task_count s < MAX_RT_TASKS")
    case True
    then have s': "task_count ?s' = Suc (task_count s)"
      "rt_total_utilization ?s' = dadd (rt_total_utilization s) (ddiv exec_time per)"
      by (simp_all add: add_rt_task_def task_count_def)
    then have "task_count ?s' \<le> MAX_RT_TASKS" using True by simp
    from Cons.IH [OF this] s' True show ?thesis
      by (simp add: c take_Cons' Suc_diff_Suc)
  next
    case False
    then have full: "task_count s = MAX_RT_TASKS" using Cons.prems by simp
    then have "?s' = s" by (simp add: add_rt_task_def)
    with Cons.IH [OF Cons.prems] full show ?thesis by (simp add: c)
  qed
qed

text \<open>
  C9, as the code has it. The total utilization is accumulated by \<open>add_rt_task\<close> in
  double arithmetic: it is the running sum, in the order of the calls, of the double
  quotients of execution time by period of the tasks the table accepted, the first
  \<open>MAX_RT_TASKS\<close>. \<open>check_rms_schedulability\<close> returns whether that utilization is
  at most \<open>n * (pow(2.0, 1.0/n) - 1.0)\<close>, computed in doubles for the number of tasks
  \<open>n\<close>, and \<open>check_edf_schedulability\<close> whether it is at most \<open>1.0\<close>. Both leave
  the scheduler as it is. The statement holds for any arithmetic of doubles.
\<close>

theorem schedulability_analysis:
  "rt_total_utilization (add_rt_tasks ddiv dadd calls (initialize_rt_scheduler dzero)) =
     foldl dadd dzero
       (map (\<lambda>(ident, per, exec_time, dl). ddiv exec_time per) (take MAX_RT_TASKS calls)) \<and>
   task_count (add_rt_tasks ddiv dadd calls (initialize_rt_scheduler dzero)) =
     min (length calls) MAX_RT_TASKS \<and>
   check_rms_schedulability dofint dmul dsub ddivd dpow dle s =
     (s, dle (rt_total_utilization s)
           (dmul (dofint (int (task_count s)))
              (dsub (dpow (dofint 2) (ddivd (dofint 1) (dofint (int (task_count s)))))
                 (dofint 1)))) \<and>
   check_edf_schedulability dofint dle s = (s, dle (rt_total_utilization s) (dofint 1))"
proof -
  have "task_count (initialize_rt_scheduler dzero) \<le> MAX_RT_TASKS"
    by (simp add: initialize_rt_scheduler_def task_count_def)
  from add_rt_tasks_utilization [OF this, of ddiv dadd calls]
  have "rt_total_utilization (add_rt_tasks ddiv dadd calls (initialize_rt_scheduler dzero)) =
     foldl dadd dzero
       (map (\<lambda>(ident, per, exec_time, dl). ddiv exec_time per) (take MAX_RT_TASKS calls)) \<and>
   task_count (add_rt_tasks ddiv dadd calls (initialize_rt_scheduler dzero)) =
     min (length calls) MAX_RT_TASKS"
    by (simp add: initialize_rt_scheduler_def task_count_def)
  then show ?thesis
    by (simp add: check_rms_schedulability_def check_edf_schedulability_def
          utilization_bound_def)
qed

text \<open>
  C9 as stated fails. For tasks with execution time and period 5 and 12, 11 and 20,
  1 and 30 the utilization is exactly 1, so the set is feasible by the claim's test.
  In doubles the sum comes to \<open>1 + 1 / 2 ^ 52\<close>, and \<open>check_edf_schedulability\<close> returns
  false.
\<close>

theorem edf_rounding_counterexample:
  "exact_utilization [(1, 12, 5, 12), (2, 20, 11, 20), (3, 30, 1, 30)] = 1 \<and>
   rt_total_utilization
     (add_rt_tasks double_div double_add [(1, 12, 5, 12), (2, 20, 11, 20), (3, 30, 1, 30)]
        (initialize_rt_scheduler 0)) = 1 + 1 / 2 ^ 52 \<and>
   \<not> snd (check_edf_schedulability (of_int :: int \<Rightarrow> rat) (\<le>)
            (add_rt_tasks double_div double_add [(1, 12, 5, 12), (2, 20, 11, 20), (3, 30, 1, 30)]
               (initialize_rt_scheduler 0)))"
  by code_simp

section \<open>Properties of the priority queue\<close>

text \<open>
  C1 at a failing input. A task of priority 3 and deadline 2000 is inserted into an
  empty queue, then a task of priority 2 and deadline 1500. The sift-up stops only at a
  parent that has both the higher-or-equal priority and the earlier-or-equal deadline,
  so the second task moves above the first, and the queue gives out the task of
  priority 2 before the task of priority 3.
\<close>

theorem extract_order_violated:
  "(case insert_all [task_of 3 2000, task_of 2 1500] empty_queue of
      Inl e \<Rightarrow> False
    | Inr queue \<Rightarrow> extract_all 2 queue = Inr [task_of 2 1500, task_of 3 2000])"
  by code_simp

section \<open>Properties of the scheduler\<close>

text \<open>
  C2 on the code. From the three tasks of \<open>main\<close>, none running, one tick dispatches
  the task of priority 2 (handle 2), not the task of priority 3, and leaves
  \<open>total_switches\<close> at 1; blocking the running task for 100 ticks then dispatches the
  task of priority 3 (handle 1) and leaves \<open>total_switches\<close> at 2.
\<close>

theorem main_scenario_dispatch:
  "(case rtos_tick_handler main_kernel of
      Inl e \<Rightarrow> False
    | Inr k1 \<Rightarrow>
        current_task k1 = 2 \<and> total_switches k1 = 1 \<and>
        map state (tasks k1) = [TASK_READY, TASK_READY, TASK_RUNNING] \<and>
        (case rtos_block_task 100 k1 of
           Inl e \<Rightarrow> False
         | Inr k2 \<Rightarrow>
             current_task k2 = 1 \<and> total_switches k2 = 2 \<and>
             map state (tasks k2) = [TASK_READY, TASK_RUNNING, TASK_BLOCKED]))"
  by code_simp

subsection \<open>The queue stays within its storage and holds what was inserted\<close>

lemma insert_loop_ok:
  "i \<le> n \<Longrightarrow> n < length arr \<Longrightarrow> (\<forall>m \<le> n. m \<noteq> i \<longrightarrow> arr ! m \<in> S) \<Longrightarrow>
   \<exists>arr' j. insert_loop deref arr i t = Inr (arr', j) \<and> j \<le> i \<and>
     length arr' = length arr \<and> (\<forall>m \<le> n. m \<noteq> j \<longrightarrow> arr' ! m \<in> S)"
proof (induction deref arr i t rule: insert_loop.induct)
  case (1 deref arr i task)
  show ?case
  proof (cases "0 < i")
    case False
    then show ?thesis using "1.prems" by (simp add: insert_loop.simps)
  next
    case True
    let ?parent = "(i - 1) div 2"
    have par: "?parent < i" using True by simp
    then have rd: "slot_read arr ?parent = Inr (arr ! ?parent)"
      using "1.prems" by (simp add: slot_read_def)
    show ?thesis
    proof (cases "priority (deref task) \<le> priority (deref (arr ! ?parent)) \<and>
                  deadline (deref (arr ! ?parent)) \<le> deadline (deref task)")
      case stop: True
      have "insert_loop deref arr i task = Inr (arr, i)"
        using True rd stop by (subst insert_loop.simps) simp
      then show ?thesis using "1.prems" by simp
    next
      case go: False
      have wr: "slot_write arr i (arr ! ?parent) = Inr (arr[i := arr ! ?parent])"
        using "1.prems" by (simp add: slot_write_def)
      have step: "insert_loop deref arr i task =
                  insert_loop deref (arr[i := arr ! ?parent]) ?parent task"
        using True rd go wr by (subst insert_loop.simps) auto
      have inS: "arr ! ?parent \<in> S" using "1.prems" par by auto
      have pre: "\<forall>m \<le> n. m \<noteq> ?parent \<longrightarrow> (arr[i := arr ! ?parent]) ! m \<in> S"
        using "1.prems" inS by (auto simp: nth_list_update)
      have "\<exists>arr' j. insert_loop deref (arr[i := arr ! ?parent]) ?parent task = Inr (arr', j) \<and>
              j \<le> ?parent \<and> length arr' = length (arr[i := arr ! ?parent]) \<and>
              (\<forall>m \<le> n. m \<noteq> j \<longrightarrow> arr' ! m \<in> S)"
        using "1.IH" [OF True rd _ wr] go pre par "1.prems" by auto
      then show ?thesis using step par by auto
    qed
  qed
qed

lemma priority_queue_insert_ok:
  assumes "q_size q < length (q_tasks q)"
  shows "\<exists>q'. priority_queue_insert deref q t = Inr q' \<and> q_size q' = Suc (q_size q) \<and>
           length (q_tasks q') = length (q_tasks q) \<and> live q' \<subseteq> insert t (live q)"
proof -
  have pre: "\<forall>m \<le> q_size q. m \<noteq> q_size q \<longrightarrow> q_tasks q ! m \<in> live q"
  proof (intro allI impI)
    fix m assume "m \<le> q_size q" "m \<noteq> q_size q"
    then have lt: "m < q_size q" by simp
    then have "m < length (take (q_size q) (q_tasks q))" using assms by simp
    from nth_mem [OF this] show "q_tasks q ! m \<in> live q" using lt by (simp add: live_def)
  qed
  obtain arr' j where loop: "insert_loop deref (q_tasks q) (q_size q) t = Inr (arr', j)"
    and j: "j \<le> q_size q" and len: "length arr' = length (q_tasks q)"
    and inl: "\<forall>m \<le> q_size q. m \<noteq> j \<longrightarrow> arr' ! m \<in> live q"
    using insert_loop_ok [OF le_refl assms pre, of deref t] by blast
  have wr: "slot_write arr' j t = Inr (arr'[j := t])"
    using j len assms by (simp add: slot_write_def)
  have res: "priority_queue_insert deref q t =
        Inr (q\<lparr>q_tasks := arr'[j := t], q_size := q_size q + 1\<rparr>)"
    by (simp add: priority_queue_insert_def loop wr)
  have "live (q\<lparr>q_tasks := arr'[j := t], q_size := q_size q + 1\<rparr>) \<subseteq> insert t (live q)"
  proof
    fix x assume "x \<in> live (q\<lparr>q_tasks := arr'[j := t], q_size := q_size q + 1\<rparr>)"
    then obtain m where m: "m < Suc (q_size q)" "x = (arr'[j := t]) ! m"
      using len assms by (auto simp: live_def in_set_conv_nth)
    show "x \<in> insert t (live q)"
    proof (cases "m = j")
      case True
      then show ?thesis using m j len assms by simp
    next
      case False
      then show ?thesis using m inl by (simp add: nth_list_update)
    qed
  qed
  then show ?thesis using res len by simp
qed

lemma insert_ready_ok:
  "q_size q + length (filter (\<lambda>i. state (tbl ! i) = TASK_READY) idxs) \<le> length (q_tasks q) \<Longrightarrow>
   \<exists>q'. insert_ready tbl idxs q = Inr q' \<and>
     q_size q' = q_size q + length (filter (\<lambda>i. state (tbl ! i) = TASK_READY) idxs) \<and>
     length (q_tasks q') = length (q_tasks q) \<and>
     live q' \<subseteq> live q \<union> {i \<in> set idxs. state (tbl ! i) = TASK_READY}"
proof (induction idxs arbitrary: q)
  case Nil
  then show ?case by simp
next
  case (Cons i rest)
  show ?case
  proof (cases "state (tbl ! i) = TASK_READY")
    case False
    then show ?thesis using Cons.IH [of q] Cons.prems by auto
  next
    case True
    then have "q_size q < length (q_tasks q)" using Cons.prems by simp
    from priority_queue_insert_ok [OF this, of "\<lambda>h. tbl ! h" i]
    obtain q1 where q1: "priority_queue_insert (\<lambda>h. tbl ! h) q i = Inr q1"
      "q_size q1 = Suc (q_size q)" "length (q_tasks q1) = length (q_tasks q)"
      "live q1 \<subseteq> insert i (live q)" by blast
    have "q_size q1 + length (filter (\<lambda>i. state (tbl ! i) = TASK_READY) rest)
            \<le> length (q_tasks q1)"
      using Cons.prems True q1 by simp
    from Cons.IH [OF this] obtain q' where q': "insert_ready tbl rest q1 = Inr q'"
      "q_size q' = q_size q1 + length (filter (\<lambda>i. state (tbl ! i) = TASK_READY) rest)"
      "length (q_tasks q') = length (q_tasks q1)"
      "live q' \<subseteq> live q1 \<union> {i \<in> set rest. state (tbl ! i) = TASK_READY}" by blast
    have "insert_ready tbl (i # rest) q = Inr q'" using True q1 q' by simp
    moreover have "live q' \<subseteq> live q \<union> {j \<in> set (i # rest). state (tbl ! j) = TASK_READY}"
      using q'(4) q1(4) True by auto
    ultimately show ?thesis using q' q1 True by simp
  qed
qed

lemma extract_loop_ok:
  "sz \<le> length arr \<Longrightarrow>
   \<exists>arr' j. extract_loop deref arr sz lt i = Inr (arr', j) \<and> length arr' = length arr \<and>
     (j = i \<or> j < sz)"
proof (induction deref arr sz lt i rule: extract_loop.induct)
  case (1 deref arr sz lt i)
  show ?case
  proof (cases "i * 2 + 1 < sz")
    case False
    then show ?thesis by (simp add: extract_loop.simps)
  next
    case True
    let ?l = "arr ! (i * 2 + 1)"
    have rdl: "slot_read arr (i * 2 + 1) = Inr ?l"
      using True "1.prems" by (simp add: slot_read_def)
    define r where "r = (if i * 2 + 2 < sz then arr ! (i * 2 + 2) else ?l)"
    have rdr: "(if i * 2 + 2 < sz then slot_read arr (i * 2 + 2) else Inr ?l) = Inr r"
      using "1.prems" by (simp add: slot_read_def r_def)
    define hp where "hp = (if i * 2 + 2 < sz \<and>
                            (priority (deref ?l) < priority (deref r) \<or>
                             (priority (deref r) = priority (deref ?l) \<and>
                              deadline (deref r) < deadline (deref ?l)))
                         then i * 2 + 2 else i * 2 + 1)"
    have hp: "hp < sz" "i < hp" using True by (auto simp: hp_def)
    have rdh: "slot_read arr hp = Inr (arr ! hp)"
      using hp "1.prems" by (simp add: slot_read_def)
    show ?thesis
    proof (cases "priority (deref (arr ! hp)) < priority (deref lt) \<or>
                  (priority (deref lt) = priority (deref (arr ! hp)) \<and>
                   deadline (deref lt) \<le> deadline (deref (arr ! hp)))")
      case stop: True
      have "extract_loop deref arr sz lt i = Inr (arr, i)"
        by (subst extract_loop.simps)
           (simp only: True rdl rdr rdh stop if_True sum.case Let_def hp_def [symmetric])
      then show ?thesis by simp
    next
      case go: False
      have wr: "slot_write arr i (arr ! hp) = Inr (arr[i := arr ! hp])"
        using hp "1.prems" by (simp add: slot_write_def)
      have step: "extract_loop deref arr sz lt i =
                  extract_loop deref (arr[i := arr ! hp]) sz lt hp"
        by (subst extract_loop.simps)
           (simp only: True rdl rdr rdh go wr if_True if_False sum.case Let_def
              hp_def [symmetric])
      have "\<exists>arr' j. extract_loop deref (arr[i := arr ! hp]) sz lt hp = Inr (arr', j) \<and>
              length arr' = length (arr[i := arr ! hp]) \<and> (j = hp \<or> j < sz)"
        using "1.IH" [OF True rdl rdr hp_def rdh _ wr] go "1.prems" by auto
      then show ?thesis using step hp by auto
    qed
  qed
qed

lemma priority_queue_extract_empty:
  "q_size q = 0 \<Longrightarrow> priority_queue_extract deref q = Inr (q, None)"
  by (simp add: priority_queue_extract_def)

lemma priority_queue_extract_ok:
  assumes "q_size q \<le> length (q_tasks q)" "0 < q_size q"
  shows "\<exists>q'. priority_queue_extract deref q = Inr (q', Some (q_tasks q ! 0)) \<and>
           length (q_tasks q') = length (q_tasks q) \<and> q_size q' = q_size q - 1"
proof -
  have "q_tasks q \<noteq> []" using assms by (cases "q_tasks q") auto
  then have rd0: "slot_read (q_tasks q) 0 = Inr (q_tasks q ! 0)"
    by (simp add: slot_read_def)
  have rdl: "slot_read (q_tasks q) (q_size q - 1) = Inr (q_tasks q ! (q_size q - 1))"
    using assms by (simp add: slot_read_def)
  have "q_size q - 1 \<le> length (q_tasks q)" using assms by simp
  from extract_loop_ok [OF this, of deref "q_tasks q ! (q_size q - 1)" 0]
  obtain arr' j where loop:
    "extract_loop deref (q_tasks q) (q_size q - 1) (q_tasks q ! (q_size q - 1)) 0 = Inr (arr', j)"
    and len: "length arr' = length (q_tasks q)" and j: "j = 0 \<or> j < q_size q - 1"
    by blast
  have nz: "q_size q \<noteq> 0" using assms by simp
  show ?thesis
  proof (cases "0 < q_size q - 1")
    case True
    then have "j < length arr'" using j len assms by auto
    then have wr: "slot_write arr' j (q_tasks q ! (q_size q - 1)) =
                   Inr (arr'[j := q_tasks q ! (q_size q - 1)])"
      by (simp add: slot_write_def)
    have "priority_queue_extract deref q =
          Inr (q\<lparr>q_tasks := arr'[j := q_tasks q ! (q_size q - 1)], q_size := q_size q - 1\<rparr>,
               Some (q_tasks q ! 0))"
      by (simp only: priority_queue_extract_def nz if_False rd0 rdl loop sum.case prod.case
            True if_True wr)
    then show ?thesis using len by simp
  next
    case False
    have "priority_queue_extract deref q =
          Inr (q\<lparr>q_tasks := arr', q_size := q_size q - 1\<rparr>, Some (q_tasks q ! 0))"
      by (simp only: priority_queue_extract_def nz if_False rd0 rdl loop sum.case prod.case
            False)
    then show ?thesis using len by simp
  qed
qed

lemma schedule_next_task_ok:
  assumes "num_tasks k \<le> MAX_TASKS" "length (q_tasks (ready_queue k)) = MAX_TASKS"
  shows "((\<forall>t \<in> set (tasks k). state t \<noteq> TASK_READY) \<and>
          (\<exists>q'. schedule_next_task k = Inr (k\<lparr>ready_queue := q'\<rparr>, None) \<and>
                length (q_tasks q') = MAX_TASKS)) \<or>
         (\<exists>h q'. h < num_tasks k \<and> state (tasks k ! h) = TASK_READY \<and>
                schedule_next_task k = Inr (install k h q', Some h) \<and>
                length (q_tasks q') = MAX_TASKS)"
proof -
  let ?q0 = "priority_queue_init (ready_queue k)"
  let ?idxs = "[0 ..< num_tasks k]"
  let ?n = "length (filter (\<lambda>i. state (tasks k ! i) = TASK_READY) ?idxs)"
  have "?n \<le> length ?idxs" by (rule length_filter_le)
  then have "q_size ?q0 + ?n \<le> length (q_tasks ?q0)"
    using assms by (simp add: priority_queue_init_def)
  from insert_ready_ok [OF this] obtain q1 where
    q1: "insert_ready (tasks k) ?idxs ?q0 = Inr q1"
    and sz: "q_size q1 = q_size ?q0 + ?n"
    and len: "length (q_tasks q1) = length (q_tasks ?q0)"
    and lv: "live q1 \<subseteq> live ?q0 \<union> {i \<in> set ?idxs. state (tasks k ! i) = TASK_READY}"
    by blast
  have sz': "q_size q1 = ?n" using sz by (simp add: priority_queue_init_def)
  have len': "length (q_tasks q1) = MAX_TASKS"
    using len assms by (simp add: priority_queue_init_def)
  have lv': "live q1 \<subseteq> {i. i < num_tasks k \<and> state (tasks k ! i) = TASK_READY}"
    using lv by (auto simp: live_def priority_queue_init_def)
  show ?thesis
  proof (cases "?n = 0")
    case True
    then have none: "\<forall>i < num_tasks k. state (tasks k ! i) \<noteq> TASK_READY"
      by (auto simp: filter_empty_conv)
    have "\<forall>t \<in> set (tasks k). state t \<noteq> TASK_READY"
      using none by (auto simp: in_set_conv_nth num_tasks_def)
    moreover have "schedule_next_task k = Inr (k\<lparr>ready_queue := q1\<rparr>, None)"
      using True sz' by (simp add: schedule_next_task_def q1 priority_queue_extract_empty)
    ultimately show ?thesis using len' by blast
  next
    case False
    then have pos: "0 < q_size q1" using sz' by simp
    have le: "q_size q1 \<le> length (q_tasks q1)"
      using sz' len' assms \<open>?n \<le> length ?idxs\<close> by simp
    from priority_queue_extract_ok [OF le pos, of "\<lambda>h. tasks k ! h"]
    obtain q' where q': "priority_queue_extract (\<lambda>h. tasks k ! h) q1 =
                           Inr (q', Some (q_tasks q1 ! 0))"
      and lq: "length (q_tasks q') = length (q_tasks q1)" by blast
    have "q_tasks q1 ! 0 \<in> live q1"
      using pos le by (auto simp: live_def in_set_conv_nth intro!: exI [of _ 0])
    then have h: "q_tasks q1 ! 0 < num_tasks k"
      "state (tasks k ! (q_tasks q1 ! 0)) = TASK_READY"
      using lv' by auto
    have "schedule_next_task k = Inr (install k (q_tasks q1 ! 0) q', Some (q_tasks q1 ! 0))"
      by (simp add: schedule_next_task_def q1 q' install_def)
    then show ?thesis using h lq len' by auto
  qed
qed

subsection \<open>The shape of the kernel is kept\<close>

lemma ids_by_index: "map tcb_id (tasks k) = [0 ..< num_tasks k] \<longleftrightarrow>
           (\<forall>i < num_tasks k. tcb_id (tasks k ! i) = i)"
  unfolding num_tasks_def
  by (subst list_eq_iff_nth_eq) simp

lemma running_by_index: "list_all (\<lambda>task. state task = TASK_RUNNING \<longrightarrow> tcb_id task = current_task k) (tasks k)
           \<longleftrightarrow> (\<forall>i < num_tasks k. state (tasks k ! i) = TASK_RUNNING \<longrightarrow>
                  tcb_id (tasks k ! i) = current_task k)"
    by (simp add: list_all_length num_tasks_def)

lemma kernel_inv_nth:
  "kernel_inv k \<longleftrightarrow>
     num_tasks k \<le> MAX_TASKS \<and> length (q_tasks (ready_queue k)) = MAX_TASKS \<and>
     (\<forall>i < num_tasks k. tcb_id (tasks k ! i) = i) \<and> current_task k < MAX_TASKS \<and>
     (\<forall>i < num_tasks k. state (tasks k ! i) = TASK_RUNNING \<longrightarrow> i = current_task k)"
  unfolding kernel_inv_def ids_by_index running_by_index by (intro iffI conjI; (elim conjE)?; simp)

lemma nth_upd: "i < length xs \<Longrightarrow> xs[h := x] ! i = (if h = i then x else xs ! i)"
  by (cases "h = i") auto

lemma switch_to_schedule:
  assumes "num_tasks k \<le> MAX_TASKS" "length (q_tasks (ready_queue k)) = MAX_TASKS"
  shows "((\<forall>t \<in> set (tasks k). state t \<noteq> TASK_READY) \<and>
          (\<exists>q'. switch_to (schedule_next_task k) = Inr (k\<lparr>ready_queue := q'\<rparr>) \<and>
                length (q_tasks q') = MAX_TASKS)) \<or>
         (\<exists>h q'. h < num_tasks k \<and> state (tasks k ! h) = TASK_READY \<and>
                switch_to (schedule_next_task k) = Inr (dispatched k h q') \<and>
                length (q_tasks q') = MAX_TASKS)"
  using schedule_next_task_ok [OF assms]
proof (elim disjE conjE exE)
  fix q' assume "\<forall>t \<in> set (tasks k). state t \<noteq> TASK_READY"
    "schedule_next_task k = Inr (k\<lparr>ready_queue := q'\<rparr>, None)"
    "length (q_tasks q') = MAX_TASKS"
  then have "(\<forall>t \<in> set (tasks k). state t \<noteq> TASK_READY) \<and>
      switch_to (schedule_next_task k) = Inr (k\<lparr>ready_queue := q'\<rparr>) \<and>
      length (q_tasks q') = MAX_TASKS"
    by (simp add: switch_to_def)
  then show ?thesis by blast
next
  fix h q' assume "h < num_tasks k" "state (tasks k ! h) = TASK_READY"
    "schedule_next_task k = Inr (install k h q', Some h)" "length (q_tasks q') = MAX_TASKS"
  moreover have "total_switches (install k h q') = total_switches k"
    by (simp add: install_def)
  ultimately have "h < num_tasks k \<and> state (tasks k ! h) = TASK_READY \<and>
      switch_to (schedule_next_task k) = Inr (dispatched k h q') \<and>
      length (q_tasks q') = MAX_TASKS"
    by (simp add: switch_to_def dispatched_def)
  then show ?thesis by blast
qed

lemma kernel_inv_idle:
  assumes "kernel_inv k" "length (q_tasks q') = MAX_TASKS"
  shows "kernel_inv (k\<lparr>ready_queue := q'\<rparr>)"
  using assms by (simp add: kernel_inv_def num_tasks_def)

lemma kernel_inv_dispatched:
  assumes "num_tasks k \<le> MAX_TASKS" "\<forall>i < num_tasks k. tcb_id (tasks k ! i) = i"
    "\<forall>i < num_tasks k. state (tasks k ! i) \<noteq> TASK_RUNNING"
    "h < num_tasks k" "length (q_tasks q') = MAX_TASKS"
  shows "kernel_inv (dispatched k h q')"
  using assms unfolding kernel_inv_nth
  by (auto simp: dispatched_def install_def simulate_task_execution_def num_tasks_def
        nth_upd)

lemma kernel_inv_init: "kernel_inv rtos_init"
  by (simp add: kernel_inv_def rtos_init_def num_tasks_def MAX_TASKS_def)

lemma kernel_inv_create:
  assumes "kernel_inv k"
  shows "kernel_inv (fst (rtos_create_task tcb_ok stack_ok nm prio dl per k))"
  using assms unfolding kernel_inv_nth
  by (auto simp: rtos_create_task_def num_tasks_def nth_append)

lemma kernel_inv_check_blocked:
  assumes "kernel_inv k"
  shows "kernel_inv (check_blocked_tasks (k\<lparr>tick_count := tc\<rparr>))"
  using assms unfolding kernel_inv_nth
  by (auto simp: check_blocked_tasks_def num_tasks_def unblock_task_def)

lemma kernel_inv_simulate:
  assumes "kernel_inv k"
  shows "kernel_inv (simulate_task_execution h k)"
  using assms unfolding kernel_inv_nth
  by (auto simp: simulate_task_execution_def num_tasks_def nth_upd)

text \<open>After the current task leaves the running state, no task is running.\<close>

lemma no_running_after:
  assumes "kernel_inv k" "state t \<noteq> TASK_RUNNING"
  shows "\<forall>i < num_tasks k.
           state ((tasks k)[current_task k := t] ! i) \<noteq> TASK_RUNNING"
  using assms unfolding kernel_inv_nth
  by (auto simp: num_tasks_def nth_upd)

lemma no_running_stale:
  assumes "kernel_inv k"
    "num_tasks k \<le> current_task k \<or> state (tasks k ! current_task k) \<noteq> TASK_RUNNING"
  shows "\<forall>i < num_tasks k. state (tasks k ! i) \<noteq> TASK_RUNNING"
  using assms unfolding kernel_inv_nth by auto

lemma kernel_task_inv:
  assumes "kernel_inv k"
  shows "kernel_task k (current_task k) =
           Inr (if current_task k < num_tasks k then Some (current_task k) else None)"
  using assms by (simp add: kernel_inv_def kernel_task_def)

lemma tick_dispatch_cases:
  assumes inv: "kernel_inv k"
  obtains
    (continue) "current_task k < num_tasks k"
      "state (tasks k ! current_task k) = TASK_RUNNING"
      "\<not> should_preempt k (current_task k)"
      "tick_dispatch k = Inr (simulate_task_execution (current_task k) k)"
  | (preempt) h q' where "current_task k < num_tasks k"
      "state (tasks k ! current_task k) = TASK_RUNNING"
      "should_preempt k (current_task k)"
      "h < num_tasks k" "state (tasks (demote k) ! h) = TASK_READY"
      "tick_dispatch k = Inr (dispatched (demote k) h q')"
      "length (q_tasks q') = MAX_TASKS"
  | (idle) q' where "\<forall>i < num_tasks k. state (tasks k ! i) \<noteq> TASK_RUNNING"
      "\<forall>t \<in> set (tasks k). state t \<noteq> TASK_READY"
      "tick_dispatch k = Inr (k\<lparr>ready_queue := q'\<rparr>)"
      "length (q_tasks q') = MAX_TASKS"
  | (start) h q' where "\<forall>i < num_tasks k. state (tasks k ! i) \<noteq> TASK_RUNNING"
      "h < num_tasks k" "state (tasks k ! h) = TASK_READY"
      "tick_dispatch k = Inr (dispatched k h q')"
      "length (q_tasks q') = MAX_TASKS"
proof -
  have bounds: "num_tasks k \<le> MAX_TASKS" "length (q_tasks (ready_queue k)) = MAX_TASKS"
    using inv by (simp_all add: kernel_inv_def)
  show thesis
  proof (cases "current_task k < num_tasks k \<and>
                state (tasks k ! current_task k) = TASK_RUNNING")
    case False
    then have td: "tick_dispatch k = switch_to (schedule_next_task k)"
      by (auto simp: tick_dispatch_def kernel_task_inv [OF inv])
    have nr: "\<forall>i < num_tasks k. state (tasks k ! i) \<noteq> TASK_RUNNING"
      using no_running_stale [OF inv] False by auto
    from switch_to_schedule [OF bounds] show thesis
    proof (elim disjE conjE exE)
      fix q' assume "\<forall>t \<in> set (tasks k). state t \<noteq> TASK_READY"
        "switch_to (schedule_next_task k) = Inr (k\<lparr>ready_queue := q'\<rparr>)"
        "length (q_tasks q') = MAX_TASKS"
      then show thesis using idle nr td by simp
    next
      fix h q' assume "h < num_tasks k" "state (tasks k ! h) = TASK_READY"
        "switch_to (schedule_next_task k) = Inr (dispatched k h q')"
        "length (q_tasks q') = MAX_TASKS"
      then show thesis using start nr td by simp
    qed
  next
    case True
    show thesis
    proof (cases "should_preempt k (current_task k)")
      case False
      then have "tick_dispatch k = Inr (simulate_task_execution (current_task k) k)"
        using True by (simp add: tick_dispatch_def kernel_task_inv [OF inv])
      then show thesis using continue True False by simp
    next
      case pre: True
      have td: "tick_dispatch k = switch_to (schedule_next_task (demote k))"
        using True pre by (simp add: tick_dispatch_def kernel_task_inv [OF inv] demote_def)
      have bounds': "num_tasks (demote k) \<le> MAX_TASKS"
        "length (q_tasks (ready_queue (demote k))) = MAX_TASKS"
        using bounds by (simp_all add: demote_def num_tasks_def)
      have rdy: "state (tasks (demote k) ! current_task k) = TASK_READY"
        using True by (simp add: demote_def num_tasks_def)
      have "tasks (demote k) ! current_task k \<in> set (tasks (demote k))"
        using True by (intro nth_mem) (simp add: demote_def num_tasks_def)
      then have ex: "\<not> (\<forall>t \<in> set (tasks (demote k)). state t \<noteq> TASK_READY)"
        using rdy by blast
      from switch_to_schedule [OF bounds'] ex obtain h q' where
        "h < num_tasks (demote k)" "state (tasks (demote k) ! h) = TASK_READY"
        "switch_to (schedule_next_task (demote k)) = Inr (dispatched (demote k) h q')"
        "length (q_tasks q') = MAX_TASKS"
        by blast
      then show thesis using preempt [of h q'] True pre td
        by (simp add: demote_def num_tasks_def)
    qed
  qed
qed

lemma rtos_block_task_cases:
  assumes inv: "kernel_inv k"
  obtains
    (null) "num_tasks k \<le> current_task k" "rtos_block_task tmo k = Inr k"
  | (idle) q' where "current_task k < num_tasks k"
      "\<forall>t \<in> set (tasks (block tmo k)). state t \<noteq> TASK_READY"
      "rtos_block_task tmo k = Inr ((block tmo k)\<lparr>ready_queue := q'\<rparr>)"
      "length (q_tasks q') = MAX_TASKS"
  | (switch) h q' where "current_task k < num_tasks k"
      "h < num_tasks k" "state (tasks (block tmo k) ! h) = TASK_READY"
      "rtos_block_task tmo k = Inr (dispatched (block tmo k) h q')"
      "length (q_tasks q') = MAX_TASKS"
proof -
  have bounds: "num_tasks (block tmo k) \<le> MAX_TASKS"
    "length (q_tasks (ready_queue (block tmo k))) = MAX_TASKS"
    using inv by (simp_all add: kernel_inv_def block_def num_tasks_def)
  show thesis
  proof (cases "current_task k < num_tasks k")
    case False
    then have "rtos_block_task tmo k = Inr k"
      by (simp add: rtos_block_task_def kernel_task_inv [OF inv])
    then show thesis using null False by simp
  next
    case True
    then have bt: "rtos_block_task tmo k = switch_to (schedule_next_task (block tmo k))"
      by (simp add: rtos_block_task_def kernel_task_inv [OF inv] block_def)
    from switch_to_schedule [OF bounds] show thesis
    proof (elim disjE conjE exE)
      fix q' assume "\<forall>t \<in> set (tasks (block tmo k)). state t \<noteq> TASK_READY"
        "switch_to (schedule_next_task (block tmo k)) = Inr ((block tmo k)\<lparr>ready_queue := q'\<rparr>)"
        "length (q_tasks q') = MAX_TASKS"
      then show thesis using idle True bt by simp
    next
      fix h q' assume "h < num_tasks (block tmo k)"
        "state (tasks (block tmo k) ! h) = TASK_READY"
        "switch_to (schedule_next_task (block tmo k)) = Inr (dispatched (block tmo k) h q')"
        "length (q_tasks q') = MAX_TASKS"
      then show thesis using switch [of h q'] True bt by (simp add: block_def num_tasks_def)
    qed
  qed
qed

lemma num_tasks_upd [simp]:
  "num_tasks (k\<lparr>ready_queue := q\<rparr>) = num_tasks k"
  "num_tasks (k\<lparr>tick_count := tc\<rparr>) = num_tasks k"
  "num_tasks (k\<lparr>total_switches := ts\<rparr>) = num_tasks k"
  "num_tasks (k\<lparr>current_task := c\<rparr>) = num_tasks k"
  "num_tasks (k\<lparr>scheduler_running := b\<rparr>) = num_tasks k"
  by (simp_all add: num_tasks_def)

lemma demote_shape:
  "num_tasks (demote k) = num_tasks k" "ready_queue (demote k) = ready_queue k"
  "current_task (demote k) = current_task k" "tick_count (demote k) = tick_count k"
  "total_switches (demote k) = total_switches k"
  by (simp_all add: demote_def num_tasks_def)

lemma block_shape:
  "num_tasks (block tmo k) = num_tasks k" "ready_queue (block tmo k) = ready_queue k"
  "current_task (block tmo k) = current_task k" "tick_count (block tmo k) = tick_count k"
  "total_switches (block tmo k) = total_switches k"
  by (simp_all add: block_def num_tasks_def)

lemma dispatched_shape:
  "num_tasks (dispatched k h q) = num_tasks k" "tick_count (dispatched k h q) = tick_count k"
  "total_switches (dispatched k h q) = total_switches k + 1"
  by (simp_all add: dispatched_def install_def simulate_task_execution_def num_tasks_def)

lemma kernel_inv_ids:
  "kernel_inv k \<Longrightarrow> \<forall>i < num_tasks k. tcb_id (tasks k ! i) = i"
  by (simp add: kernel_inv_nth)

lemma kernel_inv_demote_dispatched:
  assumes "kernel_inv k" "h < num_tasks k" "length (q_tasks q') = MAX_TASKS"
  shows "kernel_inv (dispatched (demote k) h q')"
proof (rule kernel_inv_dispatched)
  show "num_tasks (demote k) \<le> MAX_TASKS"
    using assms by (simp add: demote_shape kernel_inv_def)
  show "\<forall>i < num_tasks (demote k). tcb_id (tasks (demote k) ! i) = i"
    using kernel_inv_ids [OF assms(1)] by (simp add: demote_def num_tasks_def nth_upd)
  show "\<forall>i < num_tasks (demote k). state (tasks (demote k) ! i) \<noteq> TASK_RUNNING"
    using no_running_after [OF assms(1), of "(tasks k ! current_task k)\<lparr>state := TASK_READY\<rparr>"]
    by (simp add: demote_def num_tasks_def)
  show "h < num_tasks (demote k)" using assms by (simp add: demote_shape)
  show "length (q_tasks q') = MAX_TASKS" by fact
qed

lemma kernel_inv_block_tasks:
  assumes "kernel_inv k"
  shows "num_tasks (block tmo k) \<le> MAX_TASKS"
    "\<forall>i < num_tasks (block tmo k). tcb_id (tasks (block tmo k) ! i) = i"
    "\<forall>i < num_tasks (block tmo k). state (tasks (block tmo k) ! i) \<noteq> TASK_RUNNING"
proof -
  show "num_tasks (block tmo k) \<le> MAX_TASKS"
    using assms by (simp add: block_shape kernel_inv_def)
  show "\<forall>i < num_tasks (block tmo k). tcb_id (tasks (block tmo k) ! i) = i"
    using kernel_inv_ids [OF assms] by (simp add: block_def num_tasks_def nth_upd)
  show "\<forall>i < num_tasks (block tmo k). state (tasks (block tmo k) ! i) \<noteq> TASK_RUNNING"
    using no_running_after [OF assms, of "(tasks k ! current_task k)\<lparr>state := TASK_BLOCKED,
            blocked_tick := tick_count k, timeout := tmo\<rparr>"]
    by (simp add: block_def num_tasks_def)
qed

lemma kernel_inv_tick_dispatch:
  assumes "kernel_inv k"
  shows "\<exists>k'. tick_dispatch k = Inr k' \<and> kernel_inv k' \<and> tick_count k' = tick_count k \<and>
           num_tasks k' = num_tasks k"
  using assms
proof (cases rule: tick_dispatch_cases)
  case continue
  then show ?thesis using kernel_inv_simulate [OF assms]
    by (simp add: simulate_task_execution_def num_tasks_def)
next
  case (preempt h q')
  then show ?thesis using kernel_inv_demote_dispatched [OF assms]
    by (simp add: dispatched_shape demote_shape)
next
  case (idle q')
  then show ?thesis using kernel_inv_idle [OF assms] by simp
next
  case (start h q')
  then show ?thesis
    using kernel_inv_dispatched [of k h q'] assms kernel_inv_ids [OF assms]
    by (simp add: dispatched_shape kernel_inv_def)
qed

lemma kernel_inv_tick:
  assumes "kernel_inv k"
  shows "\<exists>k'. rtos_tick_handler k = Inr k' \<and> kernel_inv k' \<and>
           tick_count k' = tick_count k + 1 \<and> num_tasks k' = num_tasks k"
proof -
  let ?k1 = "check_blocked_tasks (k\<lparr>tick_count := tick_count k + 1\<rparr>)"
  have "kernel_inv ?k1" by (rule kernel_inv_check_blocked [OF assms])
  from kernel_inv_tick_dispatch [OF this] show ?thesis
    by (auto simp: rtos_tick_handler_def check_blocked_tasks_def num_tasks_def)
qed

lemma kernel_inv_block:
  assumes "kernel_inv k"
  shows "\<exists>k'. rtos_block_task tmo k = Inr k' \<and> kernel_inv k' \<and>
           tick_count k' = tick_count k \<and> num_tasks k' = num_tasks k"
  using assms
proof (cases rule: rtos_block_task_cases [where tmo = tmo])
  case null
  then show ?thesis using assms by simp
next
  case (idle q')
  have "kernel_inv (block tmo k)"
    using kernel_inv_block_tasks [OF assms, of tmo] assms
    unfolding kernel_inv_nth by (simp add: block_shape)
  from kernel_inv_idle [OF this] idle show ?thesis
    by (simp add: block_shape)
next
  case (switch h q')
  then show ?thesis
    using kernel_inv_dispatched [of "block tmo k" h q'] kernel_inv_block_tasks [OF assms, of tmo]
    by (simp add: dispatched_shape block_shape)
qed

lemma kernel_inv_step:
  assumes "kernel_inv k"
  shows "\<exists>k'. kernel_step c k = Inr k' \<and> kernel_inv k'"
proof (cases c)
  case (Create_task tcb_ok stack_ok nm prio dl per)
  then show ?thesis using kernel_inv_create [OF assms] by simp
next
  case Tick
  then show ?thesis using kernel_inv_tick [OF assms] by auto
next
  case (Block_current tmo)
  then show ?thesis using kernel_inv_block [OF assms, of tmo] by auto
qed

lemma kernel_inv_run:
  "kernel_inv k \<Longrightarrow> \<exists>k'. run_calls cs k = Inr k' \<and> kernel_inv k'"
proof (induction cs arbitrary: k)
  case Nil
  then show ?case by simp
next
  case (Cons c cs)
  from kernel_inv_step [OF Cons.prems, of c] obtain k1 where
    k1: "kernel_step c k = Inr k1" "kernel_inv k1" by blast
  from Cons.IH [OF k1(2)] k1(1) show ?case by simp
qed

lemma kernel_inv_one_running:
  assumes "kernel_inv k"
  shows "length (running_tasks k) \<le> 1"
proof -
  have d: "distinct (running_tasks k)" by (simp add: running_tasks_def)
  have "set (running_tasks k) \<subseteq> {current_task k}"
    using assms unfolding kernel_inv_nth by (auto simp: running_tasks_def)
  then have "card (set (running_tasks k)) \<le> card {current_task k}"
    by (intro card_mono) simp_all
  then show ?thesis using distinct_card [OF d] by simp
qed

text \<open>
  C3. Every sequence of \<open>rtos_create_task\<close>, tick and \<open>rtos_block_task\<close> calls from
  the initialized kernel runs to a kernel, without an access outside an array, and in
  that kernel at most one task is in state \<open>TASK_RUNNING\<close>.
\<close>

theorem at_most_one_running:
  "\<exists>k. run_calls calls rtos_init = Inr k \<and> length (running_tasks k) \<le> 1"
  using kernel_inv_run [OF kernel_inv_init, of calls] kernel_inv_one_running by blast

subsection \<open>Capacity, blocking and preemption\<close>

text \<open>
  C5, as the code has it. \<open>priority_queue_insert\<close> makes no capacity check and has no
  failure result. On a queue that holds fewer than \<open>MAX_TASKS\<close> entries it succeeds:
  every slot it reads or writes is inside the array, the size grows by one, and the
  queue holds the new task and pointers it held before. The capacity check is in
  \<open>rtos_create_task\<close>, which returns \<open>-1\<close> and leaves the kernel unchanged when the
  table holds \<open>MAX_TASKS\<close> tasks, so that the scheduler, which fills the queue from
  the table, never goes outside the queue's array.
\<close>

theorem priority_queue_insert_within_storage:
  "(length (q_tasks q) = MAX_TASKS \<and> q_size q < MAX_TASKS \<longrightarrow>
      (\<exists>q'. priority_queue_insert deref q t = Inr q' \<and> q_size q' = q_size q + 1 \<and>
            length (q_tasks q') = MAX_TASKS \<and> live q' \<subseteq> insert t (live q))) \<and>
   (MAX_TASKS \<le> num_tasks k \<longrightarrow>
      rtos_create_task tcb_ok stack_ok nm prio dl per k = (k, - 1)) \<and>
   (kernel_inv k \<longrightarrow> (\<exists>r. schedule_next_task k = Inr r))"
proof (intro conjI impI)
  assume "length (q_tasks q) = MAX_TASKS \<and> q_size q < MAX_TASKS"
  then show "\<exists>q'. priority_queue_insert deref q t = Inr q' \<and> q_size q' = q_size q + 1 \<and>
            length (q_tasks q') = MAX_TASKS \<and> live q' \<subseteq> insert t (live q)"
    using priority_queue_insert_ok [of q deref t] by auto
next
  assume "MAX_TASKS \<le> num_tasks k"
  then show "rtos_create_task tcb_ok stack_ok nm prio dl per k = (k, - 1)"
    by (simp add: rtos_create_task_def)
next
  assume "kernel_inv k"
  then have "num_tasks k \<le> MAX_TASKS" "length (q_tasks (ready_queue k)) = MAX_TASKS"
    by (simp_all add: kernel_inv_def)
  from schedule_next_task_ok [OF this] show "\<exists>r. schedule_next_task k = Inr r"
    by blast
qed

text \<open>
  At the empty queue, and at the kernel with a full task table.
\<close>

theorem priority_queue_insert_within_storage_witness:
  "(\<exists>q'. priority_queue_insert (\<lambda>t. t) empty_queue (task_of 1 1) = Inr q' \<and>
         q_size q' = q_size empty_queue + 1 \<and> length (q_tasks q') = MAX_TASKS \<and>
         live q' \<subseteq> insert (task_of 1 1) (live empty_queue)) \<and>
   rtos_create_task True True [] 1 1 1
     (kernel_of (run_calls (replicate MAX_TASKS (Create_task True True [] 1 1 1)) rtos_init)) =
     (kernel_of (run_calls (replicate MAX_TASKS (Create_task True True [] 1 1 1)) rtos_init),
      - 1) \<and>
   (\<exists>r. schedule_next_task
      (kernel_of (run_calls (replicate MAX_TASKS (Create_task True True [] 1 1 1)) rtos_init))
      = Inr r)"
proof -
  let ?K = "kernel_of (run_calls (replicate MAX_TASKS (Create_task True True [] 1 1 1)) rtos_init)"
  have h1: "length (q_tasks empty_queue) = MAX_TASKS \<and> q_size empty_queue < MAX_TASKS"
    by (simp add: empty_queue_def priority_queue_init_def MAX_TASKS_def)
  have h2: "MAX_TASKS \<le> num_tasks ?K" by code_simp
  have h3: "kernel_inv ?K" by code_simp
  show ?thesis
    using priority_queue_insert_within_storage
            [of empty_queue "\<lambda>t. t" "task_of 1 1" ?K True True "[]" 1 1 1] h1 h2 h3
    by blast
qed

text \<open>
  C5 as stated fails. A queue filled with \<open>MAX_TASKS\<close> tasks does not refuse one more:
  the insert goes on to slot \<open>MAX_TASKS\<close>, outside the array.
\<close>

theorem priority_queue_insert_full_counterexample:
  "(case insert_all (replicate MAX_TASKS (task_of 1 1)) empty_queue of
      Inl e \<Rightarrow> False
    | Inr queue \<Rightarrow>
        q_size queue = MAX_TASKS \<and> length (q_tasks queue) = MAX_TASKS \<and>
        priority_queue_insert (\<lambda>t. t) queue (task_of 1 1) = Inl (OutOfBounds MAX_TASKS))"
  by code_simp

lemma blocked_stays:
  assumes "current_task k < num_tasks k" "h < num_tasks k"
    "state (tasks (block tmo k) ! h) = TASK_READY"
  shows "tasks (dispatched (block tmo k) h q') ! current_task k =
         (tasks k ! current_task k)\<lparr>state := TASK_BLOCKED, blocked_tick := tick_count k,
            timeout := tmo\<rparr>"
proof -
  have "h \<noteq> current_task k" using assms by (auto simp: block_def num_tasks_def)
  then show ?thesis using assms
    by (simp add: dispatched_def install_def simulate_task_execution_def block_def
          num_tasks_def nth_upd)
qed

text \<open>
  C4, as the code has it. \<open>rtos_block_task\<close> returns no error. When the slot of the
  current task is empty, which is so only while no task has been created, it leaves the
  kernel as it is. When the current task is the running one, the call blocks it: its
  state becomes \<open>TASK_BLOCKED\<close>, its \<open>blocked_tick\<close> the tick count and its
  \<open>timeout\<close> the argument.
\<close>

theorem rtos_block_task_blocks_current:
  assumes "kernel_inv k"
  shows "(num_tasks k \<le> current_task k \<longrightarrow> rtos_block_task tmo k = Inr k) \<and>
         (current_task k < num_tasks k \<and> state (tasks k ! current_task k) = TASK_RUNNING \<longrightarrow>
            (\<exists>k'. rtos_block_task tmo k = Inr k' \<and>
                  state (tasks k' ! current_task k) = TASK_BLOCKED \<and>
                  blocked_tick (tasks k' ! current_task k) = tick_count k \<and>
                  timeout (tasks k' ! current_task k) = tmo))"
  using assms
proof (cases rule: rtos_block_task_cases [where tmo = tmo])
  case null
  then show ?thesis by simp
next
  case (idle q')
  then show ?thesis by (simp add: block_def num_tasks_def)
next
  case (switch h q')
  then show ?thesis using blocked_stays [of k h tmo q'] by simp
qed

text \<open>
  At the initialized kernel, and at the kernel of \<open>main\<close> after one tick.
\<close>

theorem rtos_block_task_blocks_current_witness:
  "rtos_block_task 100 rtos_init = Inr rtos_init \<and>
   (\<exists>k'. rtos_block_task 100 (kernel_of (rtos_tick_handler main_kernel)) = Inr k' \<and>
      state (tasks k' ! current_task (kernel_of (rtos_tick_handler main_kernel))) = TASK_BLOCKED \<and>
      blocked_tick (tasks k' ! current_task (kernel_of (rtos_tick_handler main_kernel))) =
        tick_count (kernel_of (rtos_tick_handler main_kernel)) \<and>
      timeout (tasks k' ! current_task (kernel_of (rtos_tick_handler main_kernel))) = 100)"
proof -
  let ?K = "kernel_of (rtos_tick_handler main_kernel)"
  have h0: "kernel_inv rtos_init" by code_simp
  have h1: "num_tasks rtos_init \<le> current_task rtos_init" by code_simp
  have h2: "kernel_inv ?K" by code_simp
  have h3: "current_task ?K < num_tasks ?K \<and> state (tasks ?K ! current_task ?K) = TASK_RUNNING"
    by code_simp
  show ?thesis
    using rtos_block_task_blocks_current [OF h0, of 100]
      rtos_block_task_blocks_current [OF h2, of 100] h1 h3
    by blast
qed

text \<open>
  C4 as stated fails. In the kernel of \<open>main\<close> before any tick no task is running;
  \<open>rtos_block_task\<close> tests only that the current slot is not \<open>NULL\<close>, blocks the
  ready task 0, dispatches another task and counts a switch.
\<close>

theorem rtos_block_task_not_running_counterexample:
  "running_tasks main_kernel = [] \<and>
   (case rtos_block_task 5 main_kernel of
      Inl e \<Rightarrow> False
    | Inr k' \<Rightarrow>
        map state (tasks main_kernel) = [TASK_READY, TASK_READY, TASK_READY] \<and>
        map state (tasks k') = [TASK_BLOCKED, TASK_READY, TASK_RUNNING] \<and>
        map timeout (tasks k') = [5, 0, 0] \<and>
        current_task main_kernel = 0 \<and> current_task k' = 2 \<and>
        total_switches main_kernel = 0 \<and> total_switches k' = 1)"
  by code_simp

lemma unblock_task_fields [simp]:
  "priority (unblock_task now t) = priority t"
  "tcb_id (unblock_task now t) = tcb_id t"
  "blocked_tick (unblock_task now t) = blocked_tick t"
  "timeout (unblock_task now t) = timeout t"
  by (simp_all add: unblock_task_def)

lemma unblock_task_state:
  "state (unblock_task now t) =
     (if state t = TASK_BLOCKED \<and> timeout t \<le> now - blocked_tick t then TASK_READY
      else state t)"
  by (simp add: unblock_task_def)

text \<open>
  C7, as the code has it. The tick handler unblocks before it looks for a task to
  preempt. When the current task is running, and every task that is ready, or blocked
  with a timeout that this tick reaches, has a priority at most the running task's, the
  tick keeps the running task: it stays \<open>TASK_RUNNING\<close> and current, no other task
  becomes running, and \<open>total_switches\<close> is unchanged. A ready task of equal priority
  does not preempt.
\<close>

theorem no_preemption_without_higher_priority:
  assumes cur: "current_task k < num_tasks k" "num_tasks k \<le> MAX_TASKS"
    and run: "state (tasks k ! current_task k) = TASK_RUNNING"
    and low: "list_all (\<lambda>t. state t = TASK_READY \<or>
                  (state t = TASK_BLOCKED \<and> timeout t \<le> tick_count k + 1 - blocked_tick t)
                  \<longrightarrow> priority t \<le> priority (tasks k ! current_task k)) (tasks k)"
  shows "\<exists>k'. rtos_tick_handler k = Inr k' \<and>
           state (tasks k' ! current_task k) = TASK_RUNNING \<and>
           current_task k' = current_task k \<and> total_switches k' = total_switches k \<and>
           (\<forall>i < num_tasks k. state (tasks k' ! i) = TASK_RUNNING \<longrightarrow>
                state (tasks k ! i) = TASK_RUNNING)"
proof -
  let ?c = "current_task k"
  let ?k1 = "check_blocked_tasks (k\<lparr>tick_count := tick_count k + 1\<rparr>)"
  have t1: "tasks ?k1 = map (unblock_task (tick_count k + 1)) (tasks k)"
    by (simp add: check_blocked_tasks_def)
  have c1: "current_task ?k1 = ?c" "num_tasks ?k1 = num_tasks k"
    "total_switches ?k1 = total_switches k"
    by (simp_all add: check_blocked_tasks_def num_tasks_def)
  have kt: "kernel_task ?k1 (current_task ?k1) = Inr (Some ?c)"
    using cur by (simp add: kernel_task_def c1)
  have cur1: "tasks ?k1 ! ?c = tasks k ! ?c"
    using cur run by (simp add: t1 num_tasks_def unblock_task_def)
  have cur1': "map (unblock_task (tick_count k + 1)) (tasks k) ! ?c = tasks k ! ?c"
    using cur1 t1 by simp
  have np: "\<not> should_preempt ?k1 ?c"
  proof
    assume "should_preempt ?k1 ?c"
    then obtain t where t: "t \<in> set (tasks k)"
      "state (unblock_task (tick_count k + 1) t) = TASK_READY"
      "priority (tasks k ! ?c) < priority t"
      by (auto simp: should_preempt_def list_ex_iff t1 cur1')
    from t(2) have "state t = TASK_READY \<or>
        (state t = TASK_BLOCKED \<and> timeout t \<le> tick_count k + 1 - blocked_tick t)"
      by (auto simp: unblock_task_state split: if_splits)
    with low t(1) have "priority t \<le> priority (tasks k ! ?c)"
      by (auto simp: list_all_iff)
    with t(3) show False by simp
  qed
  have res: "rtos_tick_handler k = Inr (simulate_task_execution ?c ?k1)"
    using run np by (simp add: rtos_tick_handler_def tick_dispatch_def kt cur1)
  have st: "\<forall>i < num_tasks k. state (tasks (simulate_task_execution ?c ?k1) ! i) =
              state (unblock_task (tick_count k + 1) (tasks k ! i))"
    by (simp add: simulate_task_execution_def t1 num_tasks_def nth_upd)
  have "state (tasks (simulate_task_execution ?c ?k1) ! ?c) = TASK_RUNNING"
    using st cur run by (simp add: unblock_task_state)
  moreover have "\<forall>i < num_tasks k.
      state (tasks (simulate_task_execution ?c ?k1) ! i) = TASK_RUNNING \<longrightarrow>
      state (tasks k ! i) = TASK_RUNNING"
    using st by (auto simp: unblock_task_state split: if_splits)
  moreover have "current_task (simulate_task_execution ?c ?k1) = ?c"
    "total_switches (simulate_task_execution ?c ?k1) = total_switches k"
    by (simp_all add: simulate_task_execution_def check_blocked_tasks_def)
  ultimately show ?thesis using res by simp
qed

text \<open>
  Two tasks of equal priority: after the first has been dispatched, the next tick keeps
  it running and the second ready.
\<close>

theorem no_preemption_without_higher_priority_witness:
  "\<exists>k'. rtos_tick_handler
          (kernel_of (run_calls [Create_task True True ''A'' 1 10 10,
                                 Create_task True True ''B'' 1 10 10, Tick] rtos_init)) = Inr k' \<and>
      state (tasks k' ! 0) = TASK_RUNNING \<and> current_task k' = 0 \<and> total_switches k' = 1 \<and>
      state (tasks k' ! 1) = TASK_READY"
proof -
  let ?K = "kernel_of (run_calls [Create_task True True ''A'' 1 10 10,
                                 Create_task True True ''B'' 1 10 10, Tick] rtos_init)"
  have h1: "current_task ?K < num_tasks ?K" by code_simp
  have h2: "num_tasks ?K \<le> MAX_TASKS" by code_simp
  have h3: "state (tasks ?K ! current_task ?K) = TASK_RUNNING" by code_simp
  have h4: "list_all (\<lambda>t. state t = TASK_READY \<or>
                  (state t = TASK_BLOCKED \<and> timeout t \<le> tick_count ?K + 1 - blocked_tick t)
                  \<longrightarrow> priority t \<le> priority (tasks ?K ! current_task ?K)) (tasks ?K)"
    by code_simp
  have e: "current_task ?K = 0" "total_switches ?K = 1" "num_tasks ?K = 2"
    "state (tasks ?K ! 1) = TASK_READY"
    by code_simp+
  from no_preemption_without_higher_priority [OF h1 h2 h3 h4]
  obtain k' where k': "rtos_tick_handler ?K = Inr k'"
    "state (tasks k' ! current_task ?K) = TASK_RUNNING"
    "current_task k' = current_task ?K" "total_switches k' = total_switches ?K"
    "\<forall>i < num_tasks ?K. state (tasks k' ! i) = TASK_RUNNING \<longrightarrow>
        state (tasks ?K ! i) = TASK_RUNNING"
    by blast
  have "state (tasks k' ! 1) = TASK_READY"
  proof -
    have "rtos_tick_handler ?K = Inr (kernel_of (rtos_tick_handler ?K))"
      using k'(1) by (simp add: kernel_of_def)
    with k'(1) have "k' = kernel_of (rtos_tick_handler ?K)" by simp
    moreover have "state (tasks (kernel_of (rtos_tick_handler ?K)) ! 1) = TASK_READY"
      by code_simp
    ultimately show ?thesis by simp
  qed
  then show ?thesis using k' e by auto
qed

text \<open>
  C7 as stated fails. Task 0 (priority 1) is running, task 1 (priority 2) is blocked
  with a timeout of one tick and no task is ready; the next tick unblocks task 1, which
  preempts task 0.
\<close>

theorem unblocked_task_preempts_counterexample:
  "(case run_calls [Create_task True True ''A'' 1 10 10, Create_task True True ''B'' 2 20 20,
                    Tick, Block_current 1] rtos_init of
      Inl e \<Rightarrow> False
    | Inr k \<Rightarrow>
        map state (tasks k) = [TASK_RUNNING, TASK_BLOCKED] \<and> current_task k = 0 \<and>
        (case rtos_tick_handler k of
           Inl e \<Rightarrow> False
         | Inr k' \<Rightarrow>
             map state (tasks k') = [TASK_READY, TASK_RUNNING] \<and> current_task k' = 1 \<and>
             total_switches k' = total_switches k + 1))"
  by code_simp

subsection \<open>Timeouts\<close>

lemma dispatched_other:
  assumes "i < num_tasks k" "h \<noteq> i"
  shows "tasks (dispatched k h q') ! i = tasks k ! i"
  using assms
  by (simp add: dispatched_def install_def simulate_task_execution_def num_tasks_def nth_upd)

lemma dispatched_state:
  assumes "i < num_tasks k"
  shows "state (tasks (dispatched k h q') ! i) =
           (if h = i then TASK_RUNNING else state (tasks k ! i))"
  using assms
  by (simp add: dispatched_def install_def simulate_task_execution_def num_tasks_def nth_upd)

lemma demote_other:
  assumes "i < num_tasks k" "current_task k \<noteq> i"
  shows "tasks (demote k) ! i = tasks k ! i"
  using assms by (simp add: demote_def num_tasks_def nth_upd)

lemma simulate_state:
  assumes "i < num_tasks k"
  shows "state (tasks (simulate_task_execution h k) ! i) = state (tasks k ! i)"
  using assms by (simp add: simulate_task_execution_def num_tasks_def nth_upd)

lemma simulate_other:
  assumes "i < num_tasks k" "h \<noteq> i"
  shows "tasks (simulate_task_execution h k) ! i = tasks k ! i"
  using assms by (simp add: simulate_task_execution_def num_tasks_def nth_upd)

text \<open>The dispatch part of a tick leaves a blocked task as it is.\<close>

lemma tick_dispatch_keeps_blocked:
  assumes inv: "kernel_inv k" and i: "i < num_tasks k"
    and bl: "state (tasks k ! i) = TASK_BLOCKED" and td: "tick_dispatch k = Inr k'"
  shows "tasks k' ! i = tasks k ! i"
  using inv
proof (cases rule: tick_dispatch_cases)
  case continue
  then have "current_task k \<noteq> i" using bl by auto
  then show ?thesis using continue td i by (simp add: simulate_other)
next
  case (preempt h q')
  then have ci: "current_task k \<noteq> i" using bl by auto
  then have same: "tasks (demote k) ! i = tasks k ! i" using i by (simp add: demote_other)
  then have "h \<noteq> i" using preempt bl by auto
  then show ?thesis using preempt td i same
    by (simp add: dispatched_other demote_shape)
next
  case (idle q')
  then show ?thesis using td by simp
next
  case (start h q')
  then have "h \<noteq> i" using bl by auto
  then show ?thesis using start td i by (simp add: dispatched_other)
qed

text \<open>The dispatch part of a tick leaves a ready task ready or makes it the running one.\<close>

lemma tick_dispatch_ready:
  assumes inv: "kernel_inv k" and i: "i < num_tasks k"
    and rd: "state (tasks k ! i) = TASK_READY" and td: "tick_dispatch k = Inr k'"
  shows "state (tasks k' ! i) = TASK_READY \<or> state (tasks k' ! i) = TASK_RUNNING"
  using inv
proof (cases rule: tick_dispatch_cases)
  case continue
  then show ?thesis using td i rd by (simp add: simulate_state)
next
  case (preempt h q')
  then have ci: "current_task k \<noteq> i" using rd by auto
  then have "state (tasks (demote k) ! i) = TASK_READY" using i rd by (simp add: demote_other)
  then show ?thesis using preempt td i by (simp add: dispatched_state demote_shape)
next
  case (idle q')
  then show ?thesis using td rd by simp
next
  case (start h q')
  then show ?thesis using td i rd by (simp add: dispatched_state)
qed

lemma check_blocked_nth:
  assumes "i < num_tasks k"
  shows "tasks (check_blocked_tasks (k\<lparr>tick_count := tc\<rparr>)) ! i = unblock_task tc (tasks k ! i)"
  using assms by (simp add: check_blocked_tasks_def num_tasks_def)

lemma check_blocked_shape:
  "num_tasks (check_blocked_tasks (k\<lparr>tick_count := tc\<rparr>)) = num_tasks k"
  "tick_count (check_blocked_tasks (k\<lparr>tick_count := tc\<rparr>)) = tc"
  by (simp_all add: check_blocked_tasks_def num_tasks_def)

text \<open>One tick on a kernel with a blocked task: before the timeout, and at it.\<close>

lemma tick_before_timeout:
  assumes inv: "kernel_inv k" and i: "i < num_tasks k"
    and bl: "state (tasks k ! i) = TASK_BLOCKED"
    and early: "\<not> timeout (tasks k ! i) \<le> tick_count k + 1 - blocked_tick (tasks k ! i)"
  shows "\<exists>k'. rtos_tick_handler k = Inr k' \<and> kernel_inv k' \<and> num_tasks k' = num_tasks k \<and>
           tick_count k' = tick_count k + 1 \<and> tasks k' ! i = tasks k ! i"
proof -
  let ?k1 = "check_blocked_tasks (k\<lparr>tick_count := tick_count k + 1\<rparr>)"
  have inv1: "kernel_inv ?k1" by (rule kernel_inv_check_blocked [OF inv])
  have same: "tasks ?k1 ! i = tasks k ! i"
    using i early by (simp add: check_blocked_nth unblock_task_def)
  from kernel_inv_tick_dispatch [OF inv1] obtain k' where
    k': "tick_dispatch ?k1 = Inr k'" "kernel_inv k'" "tick_count k' = tick_count ?k1"
      "num_tasks k' = num_tasks ?k1" by blast
  have "tasks k' ! i = tasks ?k1 ! i"
    using tick_dispatch_keeps_blocked [OF inv1 _ _ k'(1), of i] i bl same
    by (simp add: check_blocked_shape)
  then show ?thesis using k' same
    by (simp add: rtos_tick_handler_def check_blocked_shape)
qed

lemma tick_at_timeout:
  assumes inv: "kernel_inv k" and i: "i < num_tasks k"
    and bl: "state (tasks k ! i) = TASK_BLOCKED"
    and due: "timeout (tasks k ! i) \<le> tick_count k + 1 - blocked_tick (tasks k ! i)"
  shows "\<exists>k'. rtos_tick_handler k = Inr k' \<and> tick_count k' = tick_count k + 1 \<and>
           state (tasks (check_blocked_tasks (k\<lparr>tick_count := tick_count k + 1\<rparr>)) ! i)
             = TASK_READY \<and>
           (state (tasks k' ! i) = TASK_READY \<or> state (tasks k' ! i) = TASK_RUNNING)"
proof -
  let ?k1 = "check_blocked_tasks (k\<lparr>tick_count := tick_count k + 1\<rparr>)"
  have inv1: "kernel_inv ?k1" by (rule kernel_inv_check_blocked [OF inv])
  have rd: "state (tasks ?k1 ! i) = TASK_READY"
    using i bl due by (simp add: check_blocked_nth unblock_task_def)
  from kernel_inv_tick_dispatch [OF inv1] obtain k' where
    k': "tick_dispatch ?k1 = Inr k'" "kernel_inv k'" "tick_count k' = tick_count ?k1"
      "num_tasks k' = num_tasks ?k1" by blast
  have "state (tasks k' ! i) = TASK_READY \<or> state (tasks k' ! i) = TASK_RUNNING"
    using tick_dispatch_ready [OF inv1 _ rd k'(1)] i by (simp add: check_blocked_shape)
  then show ?thesis using k' rd
    by (simp add: rtos_tick_handler_def check_blocked_shape)
qed

lemma unat_of_nat32: "n < unat (w :: u32) \<Longrightarrow> unat (of_nat n :: u32) = n"
proof -
  assume "n < unat w"
  moreover have "unat w < 2 ^ 32" using unsigned_less [of w, where 'a = nat] by simp
  ultimately have "n < 2 ^ 32" by simp
  then show ?thesis by (simp add: unat_of_nat)
qed

lemma ticks_blocked:
  assumes inv: "kernel_inv k" and i: "i < num_tasks k"
    and bl: "state (tasks k ! i) = TASK_BLOCKED"
    and at: "blocked_tick (tasks k ! i) = tick_count k"
  shows "n < max 1 (unat (timeout (tasks k ! i))) \<Longrightarrow>
         \<exists>k'. ticks n k = Inr k' \<and> kernel_inv k' \<and> num_tasks k' = num_tasks k \<and>
           tasks k' ! i = tasks k ! i \<and> tick_count k' = tick_count k + of_nat n"
proof (induction n)
  case 0
  then show ?case using inv by simp
next
  case (Suc n)
  then have lt: "Suc n < unat (timeout (tasks k ! i))" by simp
  then have "n < max 1 (unat (timeout (tasks k ! i)))" by simp
  from Suc.IH [OF this] obtain k' where k': "ticks n k = Inr k'" "kernel_inv k'"
    "num_tasks k' = num_tasks k" "tasks k' ! i = tasks k ! i"
    "tick_count k' = tick_count k + of_nat n" by blast
  have el: "tick_count k' + 1 - blocked_tick (tasks k' ! i) = of_nat (Suc n)"
    using k' at by simp
  have "(of_nat (Suc n) :: u32) < timeout (tasks k ! i)"
    using lt unat_of_nat32 [OF lt] by (simp add: word_less_nat_alt)
  then have early: "\<not> timeout (tasks k' ! i) \<le> tick_count k' + 1 - blocked_tick (tasks k' ! i)"
    unfolding el using k'(4) by simp
  from tick_before_timeout [OF k'(2) _ _ early] i bl k'
  obtain k'' where "rtos_tick_handler k' = Inr k''" "kernel_inv k''"
    "num_tasks k'' = num_tasks k'" "tick_count k'' = tick_count k' + 1"
    "tasks k'' ! i = tasks k' ! i" by auto
  then show ?case using k' by simp
qed

text \<open>
  C6, as the code has it. A task is blocked with \<open>blocked_tick\<close> equal to the tick
  count \<open>T\<close> and a timeout \<open>K\<close>, and the kernel is then only ticked. Let \<open>m\<close> be \<open>K\<close>,
  or 1 when \<open>K\<close> is 0. After every number of ticks below \<open>m\<close> the task is still blocked.
  The unblock loop of tick number \<open>m\<close>, the first tick with
  \<open>tick_count - T \<ge> K\<close> in 32-bit arithmetic, makes it ready, and at the end of that
  tick, where \<open>tick_count\<close> is \<open>T + m\<close>, it is ready or has been dispatched. So a
  timeout of 0 ends at the very next tick, \<open>T + 1\<close>, as a timeout of 1 does.
\<close>

theorem blocked_task_ready_at_timeout:
  assumes inv: "kernel_inv k" and i: "i < num_tasks k"
    and bl: "state (tasks k ! i) = TASK_BLOCKED"
    and at: "blocked_tick (tasks k ! i) = tick_count k"
  shows "(\<forall>n < max 1 (unat (timeout (tasks k ! i))).
            \<exists>k'. ticks n k = Inr k' \<and> state (tasks k' ! i) = TASK_BLOCKED \<and>
                 tick_count k' = tick_count k + of_nat n) \<and>
         (\<exists>k' k''. ticks (max 1 (unat (timeout (tasks k ! i))) - 1) k = Inr k' \<and>
            state (tasks (check_blocked_tasks (k'\<lparr>tick_count := tick_count k' + 1\<rparr>)) ! i)
              = TASK_READY \<and>
            ticks (max 1 (unat (timeout (tasks k ! i)))) k = Inr k'' \<and>
            tick_count k'' = tick_count k + of_nat (max 1 (unat (timeout (tasks k ! i)))) \<and>
            (state (tasks k'' ! i) = TASK_READY \<or> state (tasks k'' ! i) = TASK_RUNNING))"
proof
  show "\<forall>n < max 1 (unat (timeout (tasks k ! i))).
            \<exists>k'. ticks n k = Inr k' \<and> state (tasks k' ! i) = TASK_BLOCKED \<and>
                 tick_count k' = tick_count k + of_nat n"
    using ticks_blocked [OF inv i bl at] bl by fastforce
next
  let ?m = "max 1 (unat (timeout (tasks k ! i)))"
  have m: "Suc (?m - 1) = ?m" by simp
  have "?m - 1 < ?m" by simp
  from ticks_blocked [OF inv i bl at this] obtain k' where k': "ticks (?m - 1) k = Inr k'"
    "kernel_inv k'" "num_tasks k' = num_tasks k" "tasks k' ! i = tasks k ! i"
    "tick_count k' = tick_count k + of_nat (?m - 1)" by blast
  have "tick_count k' + 1 = tick_count k + of_nat (Suc (?m - 1))"
    using k'(5) by simp
  then have tc: "tick_count k' + 1 = tick_count k + of_nat ?m"
    by (simp only: m)
  have el: "tick_count k' + 1 - blocked_tick (tasks k' ! i) = of_nat ?m"
    using tc k'(4) at by simp
  have "timeout (tasks k ! i) \<le> of_nat ?m"
  proof (cases "unat (timeout (tasks k ! i)) = 0")
    case True
    then have "timeout (tasks k ! i) = 0" by (simp add: unat_eq_0)
    then show ?thesis by simp
  next
    case False
    then have "?m = unat (timeout (tasks k ! i))" by simp
    then show ?thesis by simp
  qed
  then have due: "timeout (tasks k' ! i) \<le> tick_count k' + 1 - blocked_tick (tasks k' ! i)"
    unfolding el using k'(4) by simp
  from tick_at_timeout [OF k'(2) _ _ due] i bl k'
  obtain k'' where k'': "rtos_tick_handler k' = Inr k''" "tick_count k'' = tick_count k' + 1"
    "state (tasks (check_blocked_tasks (k'\<lparr>tick_count := tick_count k' + 1\<rparr>)) ! i)
       = TASK_READY"
    "state (tasks k'' ! i) = TASK_READY \<or> state (tasks k'' ! i) = TASK_RUNNING"
    by auto
  have "ticks (Suc (?m - 1)) k = Inr k''"
    by (simp only: ticks.simps k'(1) sum.case k''(1))
  then have run: "ticks ?m k = Inr k''" by (simp only: m)
  show "\<exists>k' k''. ticks (?m - 1) k = Inr k' \<and>
            state (tasks (check_blocked_tasks (k'\<lparr>tick_count := tick_count k' + 1\<rparr>)) ! i)
              = TASK_READY \<and>
            ticks ?m k = Inr k'' \<and> tick_count k'' = tick_count k + of_nat ?m \<and>
            (state (tasks k'' ! i) = TASK_READY \<or> state (tasks k'' ! i) = TASK_RUNNING)"
    using k'(1) k'' run tc by auto
qed

text \<open>
  A task blocked at tick 1 for 3 ticks: still blocked after two ticks, at tick 3, and
  made ready by the third, at tick 4.
\<close>

theorem blocked_task_ready_at_timeout_witness:
  "(\<exists>k'. ticks 2 (kernel_of (run_calls [Create_task True True ''A'' 1 10 10, Tick,
                                       Block_current 3] rtos_init)) = Inr k' \<and>
         state (tasks k' ! 0) = TASK_BLOCKED \<and> tick_count k' = 3) \<and>
   (\<exists>k' k''. ticks 2 (kernel_of (run_calls [Create_task True True ''A'' 1 10 10, Tick,
                                           Block_current 3] rtos_init)) = Inr k' \<and>
         state (tasks (check_blocked_tasks (k'\<lparr>tick_count := tick_count k' + 1\<rparr>)) ! 0)
           = TASK_READY \<and>
         ticks 3 (kernel_of (run_calls [Create_task True True ''A'' 1 10 10, Tick,
                                        Block_current 3] rtos_init)) = Inr k'' \<and>
         tick_count k'' = 4 \<and>
         (state (tasks k'' ! 0) = TASK_READY \<or> state (tasks k'' ! 0) = TASK_RUNNING))"
proof -
  let ?K = "kernel_of (run_calls [Create_task True True ''A'' 1 10 10, Tick,
                                  Block_current 3] rtos_init)"
  have h1: "kernel_inv ?K" by code_simp
  have h2: "0 < num_tasks ?K" by code_simp
  have h3: "state (tasks ?K ! 0) = TASK_BLOCKED" by code_simp
  have h4: "blocked_tick (tasks ?K ! 0) = tick_count ?K" by code_simp
  have tm: "timeout (tasks ?K ! 0) = 3" by code_simp
  have tc: "tick_count ?K = 1" by code_simp
  have m: "max 1 (unat (timeout (tasks ?K ! 0))) = 3" unfolding tm by simp
  note inst = blocked_task_ready_at_timeout [OF h1 h2 h3 h4, unfolded m]
  from inst have "\<forall>n < 3. \<exists>k'. ticks n ?K = Inr k' \<and> state (tasks k' ! 0) = TASK_BLOCKED \<and>
                   tick_count k' = tick_count ?K + of_nat n"
    by (rule conjunct1)
  then have "\<exists>k'. ticks 2 ?K = Inr k' \<and> state (tasks k' ! 0) = TASK_BLOCKED \<and>
                   tick_count k' = tick_count ?K + of_nat 2"
    by (elim allE [of _ 2]) simp
  then have a: "\<exists>k'. ticks 2 ?K = Inr k' \<and> state (tasks k' ! 0) = TASK_BLOCKED \<and>
                   tick_count k' = 3"
    unfolding tc by simp
  from inst have "\<exists>k' k''. ticks (3 - 1) ?K = Inr k' \<and>
            state (tasks (check_blocked_tasks (k'\<lparr>tick_count := tick_count k' + 1\<rparr>)) ! 0)
              = TASK_READY \<and>
            ticks 3 ?K = Inr k'' \<and> tick_count k'' = tick_count ?K + of_nat 3 \<and>
            (state (tasks k'' ! 0) = TASK_READY \<or> state (tasks k'' ! 0) = TASK_RUNNING)"
    by (rule conjunct2)
  then have b: "\<exists>k' k''. ticks 2 ?K = Inr k' \<and>
            state (tasks (check_blocked_tasks (k'\<lparr>tick_count := tick_count k' + 1\<rparr>)) ! 0)
              = TASK_READY \<and>
            ticks 3 ?K = Inr k'' \<and> tick_count k'' = 4 \<and>
            (state (tasks k'' ! 0) = TASK_READY \<or> state (tasks k'' ! 0) = TASK_RUNNING)"
    unfolding tc by simp
  from a b show ?thesis by (rule conjI)
qed

text \<open>
  C6 as stated fails for a timeout of 0. The task is blocked at tick \<open>T = 1\<close> with
  \<open>K = 0\<close>; while the tick count is \<open>T + K = 1\<close> it is blocked, not ready. The tick
  that makes the count 2 makes it ready, and dispatches it.
\<close>

theorem timeout_zero_counterexample:
  "(case run_calls [Create_task True True ''A'' 1 10 10, Tick, Block_current 0] rtos_init of
      Inl e \<Rightarrow> False
    | Inr k \<Rightarrow>
        blocked_tick (tasks k ! 0) = 1 \<and> timeout (tasks k ! 0) = 0 \<and>
        tick_count k = 1 \<and> state (tasks k ! 0) = TASK_BLOCKED \<and>
        state (tasks (check_blocked_tasks (k\<lparr>tick_count := tick_count k + 1\<rparr>)) ! 0)
          = TASK_READY \<and>
        (case rtos_tick_handler k of
           Inl e \<Rightarrow> False
         | Inr k' \<Rightarrow> tick_count k' = 2 \<and> state (tasks k' ! 0) = TASK_RUNNING))"
  by code_simp

subsection \<open>Counting switches\<close>












end
